theory Spec2Isabelle
  imports Main "HOL-Library.Word"
begin

unbundle bit_operations_syntax

section \<open>Values shared by the address code\<close>

text \<open>
  A Buffer is a list of bytes. JavaScript numbers that hold small non-negative integers
  (array elements, lengths, version bytes) are \<open>nat\<close>; the big integers of the checksum
  (\<open>BN\<close>) are \<open>int\<close>. Strings are lists of characters with the codes 0 to 255.
\<close>

type_synonym byte = "8 word"

text \<open>
  Every \<open>throw\<close> of lib/address.js is a value: the class of the error and its message.
  \<open>$.checkArgument\<close> raises \<open>InvalidArgument\<close> with the given message. The last three
  constructors are the failures of the collaborators that are specified only at their
  interface (the Base-32 alphabet codec, the bit-regrouping transform, the script analyzer).
\<close>

datatype error =
    TypeError string
  | Error string
  | InvalidArgument string
  | InvalidCharacter char
  | NonZeroPadding
  | CantDeriveAddress

definition and_then :: "error + 'a \<Rightarrow> ('a \<Rightarrow> error + 'b) \<Rightarrow> error + 'b" where
  "and_then r f = (case r of Inl e \<Rightarrow> Inl e | Inr v \<Rightarrow> f v)"

subsection \<open>Strings\<close>

text \<open>
  \<open>String.prototype.toLowerCase\<close> on the characters with the codes 0 to 255: the letters
  A to Z and the capital letters of Latin-1 (U+00C0 to U+00DE without the multiplication
  sign U+00D7) move up by 32; no other character below 256 changes, and no result lies
  above 255.
\<close>

definition lower_char :: "char \<Rightarrow> char" where
  "lower_char c =
     (let n = (of_char c :: nat) in
      if (65 \<le> n \<and> n \<le> 90) \<or> (192 \<le> n \<and> n \<le> 222 \<and> n \<noteq> 215) then char_of (n + 32) else c)"

definition toLowerCase :: "string \<Rightarrow> string" where
  "toLowerCase s = map lower_char s"

text \<open>
  \<open>String.prototype.toUpperCase\<close> on the characters with the codes 0 to 255. The letters a
  to z and the small letters of Latin-1 (U+00E0 to U+00FE without the division sign
  U+00F7) move down by 32. Three characters leave the range or change the length: the
  micro sign U+00B5 becomes U+039C, the sharp s U+00DF becomes the two letters \<open>SS\<close>, and
  U+00FF becomes U+0178. The result is therefore the list of the character codes of the
  upper-case string, and \<open>char_codes\<close> gives the codes of a string for the comparison
  \<open>string === upperCase\<close>.
\<close>

definition upper_codes :: "char \<Rightarrow> nat list" where
  "upper_codes c =
     (let n = (of_char c :: nat) in
      if (97 \<le> n \<and> n \<le> 122) \<or> (224 \<le> n \<and> n \<le> 254 \<and> n \<noteq> 247) then [n - 32]
      else if n = 181 then [924]
      else if n = 223 then [83, 83]
      else if n = 255 then [376]
      else [n])"

definition toUpperCase :: "string \<Rightarrow> nat list" where
  "toUpperCase s = concat (map upper_codes s)"

definition char_codes :: "string \<Rightarrow> nat list" where
  "char_codes s = map of_char s"

text \<open>\<open>s.split(sep)\<close> for a one-character separator: never empty, \<open>''''.split(sep) = ['''']\<close>.\<close>

fun split :: "char \<Rightarrow> string \<Rightarrow> string list" where
  "split sep [] = [[]]"
| "split sep (c # cs) =
     (let r = split sep cs in if c = sep then [] # r else (c # hd r) # tl r)"

definition is_space :: "char \<Rightarrow> bool" where
  "is_space c = ((of_char c :: nat) \<in> {9, 10, 11, 12, 13, 32, 160})"

text \<open>\<open>String.prototype.trim\<close>: white space and line terminators go, at both ends.\<close>

definition trim :: "string \<Rightarrow> string" where
  "trim s = rev (dropWhile is_space (rev (dropWhile is_space s)))"

fun digits_of :: "nat \<Rightarrow> nat \<Rightarrow> string" where
  "digits_of 0 n = []"
| "digits_of (Suc fuel) n =
     (if n < 10 then [char_of (48 + n)] else digits_of fuel (n div 10) @ [char_of (48 + n mod 10)])"

text \<open>The decimal text of a number, as string concatenation (\<open>'...' + n\<close>) produces it.\<close>

definition show_nat :: "nat \<Rightarrow> string" where
  "show_nat n = digits_of (Suc n) n"

text \<open>A string is truthy unless it is absent (\<open>null\<close>, \<open>undefined\<close>) or empty.\<close>

definition truthy :: "string option \<Rightarrow> bool" where
  "truthy s = (case s of None \<Rightarrow> False | Some t \<Rightarrow> t \<noteq> [])"

section \<open>The network registry\<close>

text \<open>
  Modelled from the spec: lib/networks.js is not among the sources. A network descriptor
  carries its name, its alias, its human-readable prefix (\<open>protocol\<close>) and the version
  bytes \<open>prefix.pubkeyhash\<close>, \<open>prefix.scripthash\<close> and \<open>prefix.privatekey\<close>. The registry is
  the ordered list of the known networks with the default network; it is a parameter of
  everything that consults it.
\<close>

record network =
  name :: string
  net_alias :: string
  protocol :: string
  prefix_pubkeyhash :: nat
  prefix_scripthash :: nat
  prefix_privatekey :: nat

record registry =
  networks :: "network list"
  defaultNetwork :: network

text \<open>
  Modelled from the spec: \<open>Networks.get(arg)\<close> for a string maps a network name to its
  descriptor, the first network that carries the string as its name, alias or prefix;
  \<open>undefined\<close> is \<open>None\<close>.
\<close>

definition Networks_get :: "registry \<Rightarrow> string \<Rightarrow> network option" where
  "Networks_get reg s =
     find (\<lambda>n. name n = s \<or> net_alias n = s \<or> protocol n = s) (networks reg)"

text \<open>
  Modelled from the spec: \<open>Networks.get(byte, key)\<close> probes one version byte against the
  field \<open>key\<close> of all known descriptors, in order; the first match wins (testnet and regtest
  share a pubkeyhash byte, and testnet is found).
\<close>

definition Networks_get_key :: "registry \<Rightarrow> nat \<Rightarrow> (network \<Rightarrow> nat) \<Rightarrow> network option" where
  "Networks_get_key reg v key = find (\<lambda>n. key n = v) (networks reg)"

section \<open>Base-32 alphabet and bit regrouping\<close>

definition CHARSET :: string where
  "CHARSET = ''qpzry9x8gf2tvdw0s3jn54khce6mua7l''"

fun index_of :: "char \<Rightarrow> string \<Rightarrow> nat option" where
  "index_of c [] = None"
| "index_of c (d # ds) = (if c = d then Some 0 else map_option Suc (index_of c ds))"

text \<open>
  Modelled from the spec: \<open>Base32.encode\<close> and \<open>Base32.decode\<close> come from the common
  library. They map 5-bit values to the characters of the alphabet and back; a value
  without a character and a character outside the alphabet are failures.
\<close>

fun Base32_encode :: "nat list \<Rightarrow> error + string" where
  "Base32_encode [] = Inr []"
| "Base32_encode (v # vs) =
     (if v < 32 then and_then (Base32_encode vs) (\<lambda>s. Inr (CHARSET ! v # s))
      else Inl (InvalidArgument ''Invalid value''))"

fun Base32_decode :: "string \<Rightarrow> error + nat list" where
  "Base32_decode [] = Inr []"
| "Base32_decode (c # cs) =
     (case index_of c CHARSET of
        None \<Rightarrow> Inl (InvalidCharacter c)
      | Some v \<Rightarrow> and_then (Base32_decode cs) (\<lambda>vs. Inr (v # vs)))"

text \<open>The \<open>w\<close> low bits of a value, most significant first, and the value of such a list.\<close>

fun to_bits :: "nat \<Rightarrow> nat \<Rightarrow> bool list" where
  "to_bits 0 v = []"
| "to_bits (Suc w) v = odd (v div 2 ^ w) # to_bits w v"

fun from_bits_acc :: "nat \<Rightarrow> bool list \<Rightarrow> nat" where
  "from_bits_acc a [] = a"
| "from_bits_acc a (b # bs) = from_bits_acc (2 * a + (if b then 1 else 0)) bs"

definition from_bits :: "bool list \<Rightarrow> nat" where
  "from_bits bs = from_bits_acc 0 bs"

function groups :: "nat \<Rightarrow> bool list \<Rightarrow> bool list list" where
  "groups n bs = (if n = 0 \<or> length bs < n then [] else take n bs # groups n (drop n bs))"
  by pat_completeness auto
termination
  by (relation "measure (\<lambda>(n, bs). length bs)") auto

text \<open>
  Modelled from the spec: lib/util/convertBits.js is not among the sources.
  \<open>convertBits data from to strictMode\<close> repacks values of \<open>from\<close> bits into values of
  \<open>to\<close> bits. Without strict mode the final incomplete group is padded with zero bits to a
  full symbol; in strict mode the incomplete trailing bits are discarded only if they are
  all zero, and the conversion fails otherwise.
\<close>

definition convertBits :: "nat list \<Rightarrow> nat \<Rightarrow> nat \<Rightarrow> bool \<Rightarrow> error + nat list" where
  "convertBits data from to strictMode =
     (let bits = concat (map (to_bits from) data);
          full = groups to bits;
          rest = drop (to * length full) bits
      in if strictMode then
           (if list_all (\<lambda>b. \<not> b) rest then Inr (map from_bits full) else Inl NonZeroPadding)
         else if rest = [] then Inr (map from_bits full)
         else Inr (map from_bits (full @ [rest @ replicate (to - length rest) False])))"

section \<open>The checksum\<close>

definition GENERATOR :: "int list" where
  "GENERATOR = [0x98f2bc8e61, 0x79b76d99e2, 0xf33e5fb3c4, 0xae2eabe2a8, 0x1e4f43e470]"

text \<open>The inner loop of \<open>polymod\<close>: generator \<open>i\<close> is folded in when bit \<open>i\<close> of \<open>topBits\<close> is set.\<close>

definition apply_generators :: "int \<Rightarrow> int \<Rightarrow> int" where
  "apply_generators topBits checksum =
     fold (\<lambda>i c. if drop_bit i topBits AND 1 = 1 then c XOR GENERATOR ! i else c)
       [0..<length GENERATOR] checksum"

text \<open>One round of the outer loop of \<open>polymod\<close>.\<close>

definition polymod_step :: "int \<Rightarrow> nat \<Rightarrow> int" where
  "polymod_step checksum v =
     (let topBits = drop_bit 35 checksum;
          c1 = checksum AND 0x07ffffffff;
          c2 = push_bit 5 c1 XOR int v
      in apply_generators topBits c2)"

definition polymod :: "nat list \<Rightarrow> int" where
  "polymod data = fold (\<lambda>v checksum. polymod_step checksum v) data 1 XOR 1"

fun checksum_digits :: "nat \<Rightarrow> int \<Rightarrow> nat list" where
  "checksum_digits 0 checksum = []"
| "checksum_digits (Suc k) checksum = nat (checksum AND 31) # checksum_digits k (drop_bit 5 checksum)"

definition checksumToArray :: "int \<Rightarrow> nat list" where
  "checksumToArray checksum = rev (checksum_digits 8 checksum)"

definition protocolToArray :: "string \<Rightarrow> nat list" where
  "protocolToArray p = map (\<lambda>c. (of_char c :: nat) AND 31) p"

definition validChecksum :: "string \<Rightarrow> nat list \<Rightarrow> bool" where
  "validChecksum p payload = (polymod ((protocolToArray p @ [0]) @ payload) = 0)"

section \<open>Addresses and the CashAddr text codec\<close>

definition PayToPublicKeyHash :: string where
  "PayToPublicKeyHash = ''pubkeyhash''"

definition PayToScriptHash :: string where
  "PayToScriptHash = ''scripthash''"

text \<open>The three immutable properties of an \<open>Address\<close> instance.\<close>

record address =
  hashBuffer :: "byte list"
  network :: network
  type :: string

text \<open>The "info" object of the transform functions: any of its keys may be missing.\<close>

record info =
  info_hashBuffer :: "byte list"
  info_network :: "network option"
  info_type :: "string option"

definition getTypeBits :: "string \<Rightarrow> error + nat" where
  "getTypeBits t =
     (if t = ''pubkeyhash'' then Inr 0
      else if t = ''scripthash'' then Inr 8
      else Inl (Error (''Invalid type:'' @ t)))"

definition getHashSizeBits :: "byte list \<Rightarrow> error + nat" where
  "getHashSizeBits hash =
     (let bits = length hash * 8 in
      if bits = 160 then Inr 0
      else if bits = 192 then Inr 1
      else if bits = 224 then Inr 2
      else if bits = 256 then Inr 3
      else if bits = 320 then Inr 4
      else if bits = 384 then Inr 5
      else if bits = 448 then Inr 6
      else if bits = 512 then Inr 7
      else Inl (Error (''Invalid hash size:'' @ show_nat (length hash))))"

definition eight0 :: "nat list" where
  "eight0 = [0, 0, 0, 0, 0, 0, 0, 0]"

definition toCashAddress :: "address \<Rightarrow> bool \<Rightarrow> error + string" where
  "toCashAddress this stripProtocol =
     (let protocolData = protocolToArray (protocol (network this)) @ [0] in
      and_then (getTypeBits (type this)) (\<lambda>typeBits.
      and_then (getHashSizeBits (hashBuffer this)) (\<lambda>sizeBits.
        let versionByte = typeBits + sizeBits;
            arr = map unat (hashBuffer this)
        in and_then (convertBits (versionByte # arr) 8 5 False) (\<lambda>payloadData.
             let checksumData = (protocolData @ payloadData) @ eight0;
                 payload = payloadData @ checksumToArray (polymod checksumData)
             in and_then (Base32_encode payload) (\<lambda>text.
                  if stripProtocol then Inr text
                  else Inr (protocol (network this) @ '':'' @ text))))))"

definition getHashSize :: "nat \<Rightarrow> nat" where
  "getHashSize versionByte =
     (let b = versionByte AND 7 in
      if b = 0 then 160
      else if b = 1 then 192
      else if b = 2 then 224
      else if b = 3 then 256
      else if b = 4 then 320
      else if b = 5 then 384
      else if b = 6 then 448
      else 512)"

definition getType :: "nat \<Rightarrow> error + string" where
  "getType versionByte =
     (let b = versionByte AND 120 in
      if b = 0 then Inr ''pubkeyhash''
      else if b = 8 then Inr ''scripthash''
      else Inl (Error (''Invalid address type in version byte:'' @ show_nat versionByte)))"

definition hasSingleCase :: "string \<Rightarrow> bool" where
  "hasSingleCase s = (s = toLowerCase s \<or> char_codes s = toUpperCase s)"

text \<open>
  The loop of \<open>decodeCashAddress\<close> that infers the prefix: while no truthy protocol is
  known and a name is left, the protocol of that network is tried. Reading \<open>.protocol\<close> of
  a name the registry does not know is a \<open>TypeError\<close>.
\<close>

fun infer_protocol :: "registry \<Rightarrow> nat list \<Rightarrow> string option \<Rightarrow> string list \<Rightarrow> error + string option" where
  "infer_protocol reg payload prot [] = Inr prot"
| "infer_protocol reg payload prot (i # netNames) =
     (if truthy prot then Inr prot
      else case Networks_get reg i of
             None \<Rightarrow> Inl (TypeError ''Cannot read property protocol of undefined'')
           | Some n \<Rightarrow>
               infer_protocol reg payload
                 (if validChecksum (protocol n) payload then Some (protocol n) else prot) netNames)"

text \<open>The checksum stage of \<open>decodeCashAddress\<close>: the protocol the payload is valid for.\<close>

definition check_protocol :: "registry \<Rightarrow> string \<Rightarrow> string option \<Rightarrow> nat list \<Rightarrow> error + string" where
  "check_protocol reg addr prot payload =
     (if truthy prot then
        (if validChecksum (the prot) payload then Inr (the prot)
         else Inl (InvalidArgument (''Invalid checksum:'' @ addr)))
      else
        and_then (infer_protocol reg payload prot [''livenet'', ''testnet'', ''regtest'']) (\<lambda>p.
          if truthy p then Inr (the p)
          else Inl (InvalidArgument (''Invalid checksum:'' @ addr))))"

text \<open>
  The last stage of \<open>decodeCashAddress\<close>: the regrouped bytes are the version byte and the
  hash. \<open>shift()\<close> of an empty array is \<open>undefined\<close>, for which \<open>getHashSize\<close> gives 160, so
  the hash size check fails.
\<close>

definition decode_version :: "registry \<Rightarrow> string \<Rightarrow> string \<Rightarrow> nat list \<Rightarrow> error + info" where
  "decode_version reg addr prot convertedBits =
     (case convertedBits of
        [] \<Rightarrow> Inl (InvalidArgument (''Invalid hash size:'' @ addr))
      | versionByte # hash \<Rightarrow>
          if getHashSize versionByte \<noteq> length hash * 8
          then Inl (InvalidArgument (''Invalid hash size:'' @ addr))
          else and_then (getType versionByte) (\<lambda>t.
            Inr \<lparr>info_hashBuffer = map of_nat hash,
                 info_network = Networks_get reg prot,
                 info_type = Some t\<rparr>))"

definition decodeCashAddress :: "registry \<Rightarrow> string \<Rightarrow> error + info" where
  "decodeCashAddress reg address0 =
     (if \<not> hasSingleCase address0 then Inl (InvalidArgument ''Mixed case'')
      else
        let addr = toLowerCase address0;
            pieces = split CHR '':'' addr
        in if \<not> length pieces \<le> 2 then Inl (InvalidArgument (''Invalid format:'' @ addr))
           else
             let prot = (if length pieces = 2 then Some (pieces ! 0) else None);
                 encodedPayload = (if length pieces = 2 then pieces ! 1 else pieces ! 0)
             in and_then (Base32_decode (toLowerCase encodedPayload)) (\<lambda>payload.
                and_then (check_protocol reg addr prot payload) (\<lambda>p.
                and_then (convertBits (take (length payload - 8) payload) 5 8 True) (\<lambda>convertedBits.
                  decode_version reg addr p convertedBits))))"


section \<open>Classifying the arguments of the constructor\<close>

text \<open>
  The \<open>network\<close> argument is a name, a Network object or a number; \<open>None\<close> is
  \<open>undefined\<close>. The empty name and the number 0 are falsy.
\<close>

datatype netarg = NetName string | NetObject network | NetNumber nat

definition given :: "netarg option \<Rightarrow> bool" where
  "given a = (case a of None \<Rightarrow> False | Some (NetName s) \<Rightarrow> s \<noteq> []
                | Some (NetObject n) \<Rightarrow> True | Some (NetNumber k) \<Rightarrow> k \<noteq> 0)"

text \<open>
  Modelled from the spec: \<open>Networks.get(arg)\<close> for the three kinds of argument. A Network
  object is found when it is one of the registry, a name as above, a number as a prefix byte
  of a known network.
\<close>

definition Networks_get_arg :: "registry \<Rightarrow> netarg option \<Rightarrow> network option" where
  "Networks_get_arg reg a =
     (case a of
        None \<Rightarrow> None
      | Some (NetName s) \<Rightarrow> Networks_get reg s
      | Some (NetObject n) \<Rightarrow> (if n \<in> set (networks reg) then Some n else None)
      | Some (NetNumber k) \<Rightarrow>
          find (\<lambda>n. prefix_pubkeyhash n = k \<or> prefix_scripthash n = k \<or> prefix_privatekey n = k)
            (networks reg))"

text \<open>
  The plain object that \<open>_transformObject\<close> reads: \<open>hash\<close> (a hex string), \<open>hashBuffer\<close>,
  \<open>network\<close> and \<open>type\<close>, each of which may be missing.
\<close>

record plain_object =
  obj_hash :: "string option"
  obj_hashBuffer :: "byte list option"
  obj_network :: "netarg option"
  obj_type :: "string option"

text \<open>A PublicKey: what \<open>toBuffer()\<close> returns, and its \<open>network\<close> property.\<close>

record public_key =
  pk_buffer :: "byte list"
  pk_network :: "network option"

text \<open>
  A Script: what \<open>toBuffer()\<close> returns, and what \<open>getAddressInfo(network)\<close> returns
  (\<open>None\<close> when no address can be derived).
\<close>

datatype script = Script (script_buffer: "byte list") (getAddressInfo: "netarg option \<Rightarrow> info option")

text \<open>
  Modelled from the spec: the collaborators outside lib/address.js that the constructor
  reaches, taken as parameters: the registry, the hash primitive RIPEMD160(SHA256(x)),
  the hex decoding of \<open>new Buffer(s, 'hex')\<close> and the multisig script builder.
\<close>

record env =
  registry_of :: registry
  sha256ripemd160 :: "byte list \<Rightarrow> byte list"
  hex_decode :: "string \<Rightarrow> byte list"
  buildMultisigOut :: "public_key list \<Rightarrow> nat \<Rightarrow> script"

text \<open>The first argument of the constructor, by its run-time shape.\<close>

datatype data =
    Buf "byte list"
  | PublicKeyData public_key
  | ScriptData script
  | Str string
  | Obj plain_object
  | Arr "public_key list"
  | Instance address
  | Missing
  | Other

definition transformHash :: "byte list \<Rightarrow> error + info" where
  "transformHash hash =
     (if length hash \<noteq> 20 then Inl (TypeError ''Address hashbuffers must be exactly 20 bytes.'')
      else Inr \<lparr>info_hashBuffer = hash, info_network = None, info_type = None\<rparr>)"

definition transformObject :: "env \<Rightarrow> plain_object \<Rightarrow> error + info" where
  "transformObject e d =
     (if \<not> (truthy (obj_hash d) \<or> obj_hashBuffer d \<noteq> None)
      then Inl (InvalidArgument ''Must provide a `hash` or `hashBuffer` property'')
      else if \<not> truthy (obj_type d) then Inl (InvalidArgument ''Must provide a `type` property'')
      else Inr \<lparr>info_hashBuffer =
                   (if truthy (obj_hash d) then hex_decode e (the (obj_hash d))
                    else the (obj_hashBuffer d)),
                info_network =
                   Some (case Networks_get_arg (registry_of e) (obj_network d) of
                           Some n \<Rightarrow> n | None \<Rightarrow> defaultNetwork (registry_of e)),
                info_type = obj_type d\<rparr>)"

text \<open>
  \<open>_classifyFromVersion\<close>: the version object has a network and a type, or neither.
\<close>

definition classifyFromVersion :: "registry \<Rightarrow> nat \<Rightarrow> (network \<times> string) option" where
  "classifyFromVersion reg b =
     (case Networks_get_key reg b prefix_pubkeyhash of
        Some n \<Rightarrow> Some (n, PayToPublicKeyHash)
      | None \<Rightarrow>
          (case Networks_get_key reg b prefix_scripthash of
             Some n \<Rightarrow> Some (n, PayToScriptHash)
           | None \<Rightarrow> None))"

definition transformBuffer :: "registry \<Rightarrow> byte list \<Rightarrow> netarg option \<Rightarrow> string option \<Rightarrow> error + info" where
  "transformBuffer reg buffer net ty =
     (if length buffer \<noteq> 1 + 20 then Inl (TypeError ''Address buffers must be exactly 21 bytes.'')
      else
        let bufferVersion = classifyFromVersion reg (unat (hd buffer)) in
        if given net \<and> Networks_get_arg reg net = None then Inl (TypeError ''Unknown network'')
        else if given net \<and>
                (bufferVersion = None \<or> Networks_get_arg reg net \<noteq> map_option fst bufferVersion)
        then Inl (TypeError ''Address has mismatched network type.'')
        else if bufferVersion = None \<or> (truthy ty \<and> ty \<noteq> map_option snd bufferVersion)
        then Inl (TypeError ''Address has mismatched type.'')
        else Inr \<lparr>info_hashBuffer = tl buffer,
                  info_network = map_option fst bufferVersion,
                  info_type = map_option snd bufferVersion\<rparr>)"

definition transformPublicKey :: "env \<Rightarrow> public_key \<Rightarrow> error + info" where
  "transformPublicKey e pubkey =
     Inr \<lparr>info_hashBuffer = sha256ripemd160 e (pk_buffer pubkey),
          info_network = None,
          info_type = Some PayToPublicKeyHash\<rparr>"

definition transformScript :: "script \<Rightarrow> netarg option \<Rightarrow> error + info" where
  "transformScript s net =
     (case getAddressInfo s net of None \<Rightarrow> Inl CantDeriveAddress | Some i \<Rightarrow> Inr i)"

definition transformString :: "registry \<Rightarrow> string \<Rightarrow> netarg option \<Rightarrow> string option \<Rightarrow> error + info" where
  "transformString reg data0 net ty =
     (if length data0 < 34 then Inl (Error ''Invalid Address string provided'')
      else
        let d = trim data0;
            networkObj = Networks_get_arg reg net
        in if given net \<and> networkObj = None then Inl (TypeError ''Unknown network'')
           else if length d > 35 then
             and_then (decodeCashAddress reg d) (\<lambda>i.
               if info_network i = None \<or>
                  (networkObj \<noteq> None \<and> name (the networkObj) \<noteq> name (the (info_network i)))
               then Inl (TypeError ''Address has mismatched network type.'')
               else if \<not> truthy (info_type i) \<or> (truthy ty \<and> ty \<noteq> info_type i)
               then Inl (TypeError ''Address has mismatched type.'')
               else Inr i)
           else Inl (Error ''Invalid Address string provided''))"

text \<open>
  \<open>_classifyArguments\<close>. A Buffer of another length than 20 or 21 and an array are
  objects, and reach \<open>_transformObject\<close> without a \<open>hash\<close> or \<open>hashBuffer\<close> property.
\<close>

definition classifyArguments :: "env \<Rightarrow> data \<Rightarrow> netarg option \<Rightarrow> string option \<Rightarrow> error + info" where
  "classifyArguments e d net ty =
     (case d of
        Buf b \<Rightarrow>
          if length b = 20 then transformHash b
          else if length b = 21 then transformBuffer (registry_of e) b net ty
          else Inl (InvalidArgument ''Must provide a `hash` or `hashBuffer` property'')
      | PublicKeyData k \<Rightarrow> transformPublicKey e k
      | ScriptData s \<Rightarrow> transformScript s net
      | Str s \<Rightarrow> transformString (registry_of e) s net ty
      | Obj ob \<Rightarrow> transformObject e ob
      | Arr ks \<Rightarrow> Inl (InvalidArgument ''Must provide a `hash` or `hashBuffer` property'')
      | Instance a \<Rightarrow>
          transformObject e \<lparr>obj_hash = None, obj_hashBuffer = Some (hashBuffer a),
            obj_network = Some (NetObject (network a)), obj_type = Some (type a)\<rparr>
      | Missing \<Rightarrow> Inl (TypeError ''First argument is an unrecognized data format.'')
      | Other \<Rightarrow> Inl (TypeError ''First argument is an unrecognized data format.''))"

text \<open>What \<open>$.checkArgument(data, ...)\<close> refuses: a falsy first argument.\<close>

definition falsy_data :: "data \<Rightarrow> bool" where
  "falsy_data d = (case d of Missing \<Rightarrow> True | Str s \<Rightarrow> s = [] | _ \<Rightarrow> False)"

text \<open>
  The body of the constructor after the multisig and the instance cases: the checks of the
  arguments, the classification and the defaults.
\<close>

definition construct :: "env \<Rightarrow> data \<Rightarrow> netarg option \<Rightarrow> string option \<Rightarrow> error + address" where
  "construct e d net ty =
     (if falsy_data d
      then Inl (InvalidArgument ''First argument is required, please include address data.'')
      else if given net \<and> Networks_get_arg (registry_of e) net = None
      then Inl (TypeError ''Second argument must be a supported network.'')
      else if truthy ty \<and> ty \<noteq> Some PayToPublicKeyHash \<and> ty \<noteq> Some PayToScriptHash
      then Inl (TypeError ''Third argument must be \"pubkeyhash\" or \"scripthash\".'')
      else and_then (classifyArguments e d net ty) (\<lambda>i.
        Inr \<lparr>hashBuffer = info_hashBuffer i,
             network =
               (case info_network i of
                  Some n \<Rightarrow> n
                | None \<Rightarrow>
                    (case Networks_get_arg (registry_of e) net of
                       Some n \<Rightarrow> n | None \<Rightarrow> defaultNetwork (registry_of e))),
             type =
               (if truthy (info_type i) then the (info_type i)
                else if truthy ty then the ty else PayToPublicKeyHash)\<rparr>))"

text \<open>
  \<open>Address.createMultisig\<close>, through \<open>Address.payingTo\<close> and \<open>Address.fromScriptHash\<close>:
  the hash of the serialized multisig script becomes a \<open>scripthash\<close> address. Reading
  \<open>publicKeys[0].network\<close> of an empty array is a \<open>TypeError\<close>.
\<close>

definition createMultisig :: "env \<Rightarrow> public_key list \<Rightarrow> nat \<Rightarrow> netarg option \<Rightarrow> error + address" where
  "createMultisig e publicKeys threshold net =
     and_then
       (if given net then Inr net
        else case publicKeys of
               [] \<Rightarrow> Inl (TypeError ''Cannot read property network of undefined'')
             | k # ks \<Rightarrow>
                 Inr (Some (NetObject
                   (case pk_network k of
                      Some n \<Rightarrow> n | None \<Rightarrow> defaultNetwork (registry_of e)))))
       (\<lambda>net'. and_then
          (transformHash (sha256ripemd160 e (script_buffer (buildMultisigOut e publicKeys threshold))))
          (\<lambda>i. construct e (Buf (info_hashBuffer i)) net' (Some PayToScriptHash)))"

text \<open>
  The constructor \<open>Address(data, network, type)\<close>, with or without \<open>new\<close>: an array with a
  number makes a multisig address (the third argument is then the network), an
  \<open>Address\<close> instance is returned as it is, anything else is classified.
\<close>

definition Address :: "env \<Rightarrow> data \<Rightarrow> netarg option \<Rightarrow> string option \<Rightarrow> error + address" where
  "Address e d net ty =
     (case (d, net) of
        (Arr ks, Some (NetNumber threshold)) \<Rightarrow>
          createMultisig e ks threshold (map_option NetName ty)
      | (Instance a, _) \<Rightarrow> Inr a
      | _ \<Rightarrow> construct e d net ty)"

text \<open>
  \<open>Address.fromString\<close>: the string is transformed, and the constructor is called with the
  hash buffer, the Network object and the type of the result.
\<close>

definition fromString :: "env \<Rightarrow> string \<Rightarrow> netarg option \<Rightarrow> string option \<Rightarrow> error + address" where
  "fromString e str net ty =
     and_then (transformString (registry_of e) str net ty) (\<lambda>info.
       Address e (Buf (info_hashBuffer info)) (map_option NetObject (info_network info))
         (info_type info))"

section \<open>The methods of an address\<close>

definition isPayToPublicKeyHash :: "address \<Rightarrow> bool" where
  "isPayToPublicKeyHash this = (type this = PayToPublicKeyHash)"

definition isPayToScriptHash :: "address \<Rightarrow> bool" where
  "isPayToScriptHash this = (type this = PayToScriptHash)"

text \<open>
  \<open>toBuffer\<close>: \<open>this.network.prefix[this.type]\<close> is \<open>undefined\<close> for a type that is no key
  of \<open>prefix\<close>, and a Buffer stores 0 for it.
\<close>

definition toBuffer :: "address \<Rightarrow> byte list" where
  "toBuffer this =
     (let version =
        (if type this = ''pubkeyhash'' then prefix_pubkeyhash (network this)
         else if type this = ''scripthash'' then prefix_scripthash (network this)
         else if type this = ''privatekey'' then prefix_privatekey (network this)
         else 0)
      in of_nat version # hashBuffer this)"

definition hex_digit :: "nat \<Rightarrow> char" where
  "hex_digit n = ''0123456789abcdef'' ! (n mod 16)"

text \<open>\<open>buffer.toString('hex')\<close>: two lower-case digits for every byte.\<close>

definition to_hex :: "byte list \<Rightarrow> string" where
  "to_hex bs = concat (map (\<lambda>b. [hex_digit (unat b div 16), hex_digit (unat b)]) bs)"

text \<open>\<open>toObject\<close>: \<open>network.toString()\<close> is the name of the network.\<close>

definition toObject :: "address \<Rightarrow> plain_object" where
  "toObject this =
     \<lparr>obj_hash = Some (to_hex (hashBuffer this)),
      obj_hashBuffer = None,
      obj_network = Some (NetName (name (network this))),
      obj_type = Some (type this)\<rparr>"

section \<open>The methods on Buffers and arrays in a store\<close>

text \<open>
  A Buffer and an array are objects: a property or a variable holds a reference, and what
  is written through one reference is read through every other. The store is the list of
  the Buffers and arrays allocated so far; a reference is an index into it. An allocation
  (\<open>new Buffer\<close>, \<open>Buffer.concat\<close>, \<open>[]\<close>) appends a cell and returns its index.
\<close>

datatype cell = BufferCell "byte list" | ArrayCell "nat list"

type_synonym store = "cell list"

type_synonym ref = nat

definition alloc :: "cell \<Rightarrow> store \<Rightarrow> ref \<times> store" where
  "alloc c st = (length st, st @ [c])"

text \<open>Reading a Buffer or an array through a reference.\<close>

definition buffer_at :: "store \<Rightarrow> ref \<Rightarrow> byte list" where
  "buffer_at st r =
     (if r < length st then (case st ! r of BufferCell b \<Rightarrow> b | ArrayCell a \<Rightarrow> []) else [])"

definition array_at :: "store \<Rightarrow> ref \<Rightarrow> nat list" where
  "array_at st r =
     (if r < length st then (case st ! r of ArrayCell a \<Rightarrow> a | BufferCell b \<Rightarrow> []) else [])"

text \<open>\<open>Array.prototype.push\<close> and \<open>reverse\<close> change the array of their receiver in place.\<close>

definition push :: "ref \<Rightarrow> nat \<Rightarrow> store \<Rightarrow> store" where
  "push r v st = st[r := ArrayCell (array_at st r @ [v])]"

definition reverse_array :: "ref \<Rightarrow> store \<Rightarrow> store" where
  "reverse_array r st = st[r := ArrayCell (rev (array_at st r))]"

text \<open>
  An \<open>Address\<close> instance. The constructor defines its three properties with
  \<open>JSUtil.defineImmutable\<close>, not writable and without a setter, so the instance is a
  value; its property \<open>hashBuffer\<close> is a reference to a Buffer in the store, whose bytes
  every holder of the reference can read and write. \<open>address_of\<close> is the address that
  an instance stands for in a store.
\<close>

record address_object =
  hashBuffer_of :: ref
  network_of :: network
  type_of :: string

definition address_of :: "store \<Rightarrow> address_object \<Rightarrow> address" where
  "address_of st this =
     \<lparr>hashBuffer = buffer_at st (hashBuffer_of this), network = network_of this,
      type = type_of this\<rparr>"

text \<open>
  \<open>protocolToArray\<close>: a new array, and one \<open>push\<close> into it for every character of the
  prefix.
\<close>

fun push_chars :: "ref \<Rightarrow> string \<Rightarrow> store \<Rightarrow> store" where
  "push_chars result [] st = st"
| "push_chars result (c # cs) st = push_chars result cs (push result ((of_char c :: nat) AND 31) st)"

definition protocolToArray_st :: "string \<Rightarrow> store \<Rightarrow> ref \<times> store" where
  "protocolToArray_st p st =
     (case alloc (ArrayCell []) st of (result, st1) \<Rightarrow> (result, push_chars result p st1))"

text \<open>
  \<open>checksumToArray\<close>: a new array, eight times \<open>push\<close> into it, and \<open>reverse\<close> of it in
  place.
\<close>

fun push_digits :: "ref \<Rightarrow> nat \<Rightarrow> int \<Rightarrow> store \<Rightarrow> store" where
  "push_digits result 0 checksum st = st"
| "push_digits result (Suc k) checksum st =
     push_digits result k (drop_bit 5 checksum) (push result (nat (checksum AND 31)) st)"

definition checksumToArray_st :: "int \<Rightarrow> store \<Rightarrow> ref \<times> store" where
  "checksumToArray_st checksum st =
     (case alloc (ArrayCell []) st of (result, st1) \<Rightarrow>
        (result, reverse_array result (push_digits result 8 checksum st1)))"

text \<open>
  \<open>toCashAddress\<close> (which is also \<open>toString\<close>): \<open>Array.prototype.slice.call\<close> copies the bytes
  of \<open>this.hashBuffer\<close>, \<open>concat\<close> returns new arrays, and the two arrays that are changed
  in place are the ones that \<open>protocolToArray\<close> and \<open>checksumToArray\<close> allocate. A \<open>throw\<close>
  leaves the store as it is at that point.
\<close>

definition toCashAddress_st :: "address_object \<Rightarrow> bool \<Rightarrow> store \<Rightarrow> (error + string) \<times> store" where
  "toCashAddress_st this stripProtocol st =
     (case protocolToArray_st (protocol (network_of this)) st of (pa, st1) \<Rightarrow>
      let protocolData = array_at st1 pa @ [0] in
      case getTypeBits (type_of this) of Inl err \<Rightarrow> (Inl err, st1) | Inr typeBits \<Rightarrow>
      case getHashSizeBits (buffer_at st1 (hashBuffer_of this)) of Inl err \<Rightarrow> (Inl err, st1)
      | Inr sizeBits \<Rightarrow>
      let versionByte = typeBits + sizeBits;
          arr = map unat (buffer_at st1 (hashBuffer_of this))
      in case convertBits (versionByte # arr) 8 5 False of Inl err \<Rightarrow> (Inl err, st1)
      | Inr payloadData \<Rightarrow>
      let checksumData = (protocolData @ payloadData) @ eight0 in
      case checksumToArray_st (polymod checksumData) st1 of (ca, st2) \<Rightarrow>
      let payload = payloadData @ array_at st2 ca in
      case Base32_encode payload of Inl err \<Rightarrow> (Inl err, st2)
      | Inr text \<Rightarrow>
          if stripProtocol then (Inr text, st2)
          else (Inr (protocol (network_of this) @ '':'' @ text), st2))"

text \<open>
  \<open>toBuffer\<close>: \<open>new Buffer([...])\<close> and \<open>Buffer.concat\<close> allocate; the reference to the second
  Buffer is returned.
\<close>

definition toBuffer_st :: "address_object \<Rightarrow> store \<Rightarrow> ref \<times> store" where
  "toBuffer_st this st =
     (let prefix =
        (if type_of this = ''pubkeyhash'' then prefix_pubkeyhash (network_of this)
         else if type_of this = ''scripthash'' then prefix_scripthash (network_of this)
         else if type_of this = ''privatekey'' then prefix_privatekey (network_of this)
         else 0)
      in case alloc (BufferCell [of_nat prefix]) st of (version, st1) \<Rightarrow>
         alloc (BufferCell (buffer_at st1 version @ buffer_at st1 (hashBuffer_of this))) st1)"

text \<open>
  \<open>toObject\<close>, \<open>isPayToPublicKeyHash\<close> and \<open>isPayToScriptHash\<close> are one \<open>return\<close> of an
  expression that reads the properties; \<open>inspect\<close> calls \<open>toString\<close> and concatenates
  strings.
\<close>

definition toObject_st :: "address_object \<Rightarrow> store \<Rightarrow> plain_object \<times> store" where
  "toObject_st this st =
     (\<lparr>obj_hash = Some (to_hex (buffer_at st (hashBuffer_of this))),
       obj_hashBuffer = None,
       obj_network = Some (NetName (name (network_of this))),
       obj_type = Some (type_of this)\<rparr>, st)"

definition isPayToPublicKeyHash_st :: "address_object \<Rightarrow> store \<Rightarrow> bool \<times> store" where
  "isPayToPublicKeyHash_st this st = (type_of this = PayToPublicKeyHash, st)"

definition isPayToScriptHash_st :: "address_object \<Rightarrow> store \<Rightarrow> bool \<times> store" where
  "isPayToScriptHash_st this st = (type_of this = PayToScriptHash, st)"

definition inspect_st :: "address_object \<Rightarrow> store \<Rightarrow> (error + string) \<times> store" where
  "inspect_st this st =
     (case toCashAddress_st this False st of
        (Inl err, st1) \<Rightarrow> (Inl err, st1)
      | (Inr text, st1) \<Rightarrow>
          (Inr (''<Address: '' @ text @ '', type: '' @ type_of this @ '', network: ''
                 @ net_alias (network_of this) @ ''>''), st1))"

text \<open>
  What a call keeps: every Buffer and array that was in the store \<open>st\<close> before the call is
  in the store \<open>st'\<close> after it with the same contents, and the instance stands for the same
  address.
\<close>

definition kept :: "store \<Rightarrow> address_object \<Rightarrow> store \<Rightarrow> bool" where
  "kept st this st' = (take (length st) st' = st \<and> address_of st' this = address_of st this)"


section \<open>A registry to run the code on\<close>

text \<open>
  Modelled from the spec: the three networks of Bitcoin Cash, with the names that the
  registry's tests use (\<open>bch\<close>, \<open>bchtest\<close>, \<open>bchreg\<close>), the prefix \<open>bitcoincash\<close> of the
  spec and the version bytes of the tests (testnet and regtest share theirs). The
  theorems below hold for every registry; this one instantiates them.
\<close>

definition livenet :: network where
  "livenet = \<lparr>name = ''bch'', net_alias = ''livenet'', protocol = ''bitcoincash'',
     prefix_pubkeyhash = 0x00, prefix_scripthash = 0x05, prefix_privatekey = 0x80\<rparr>"

definition testnet :: network where
  "testnet = \<lparr>name = ''bchtest'', net_alias = ''testnet'', protocol = ''bchtest'',
     prefix_pubkeyhash = 0x6f, prefix_scripthash = 0xc4, prefix_privatekey = 0xef\<rparr>"

definition regtest :: network where
  "regtest = \<lparr>name = ''bchreg'', net_alias = ''regtest'', protocol = ''bchreg'',
     prefix_pubkeyhash = 0x6f, prefix_scripthash = 0xc4, prefix_privatekey = 0xef\<rparr>"

definition bch_registry :: registry where
  "bch_registry = \<lparr>networks = [livenet, testnet, regtest], defaultNetwork = livenet\<rparr>"

text \<open>An environment on this registry; the collaborators it fixes are not reached below.\<close>

definition bch_env :: env where
  "bch_env = \<lparr>registry_of = bch_registry,
     sha256ripemd160 = (\<lambda>b. replicate 20 0),
     hex_decode = (\<lambda>s. []),
     buildMultisigOut = (\<lambda>ks k. Script [] (\<lambda>n. None))\<rparr>"

section \<open>Conditions on the registry\<close>

text \<open>
  A prefix that the text form can carry: not empty (an empty prefix is falsy), without a
  colon, and unchanged by \<open>toLowerCase\<close>.
\<close>

definition protocol_ok :: "string \<Rightarrow> bool" where
  "protocol_ok p = (p \<noteq> [] \<and> CHR '':'' \<notin> set p \<and> toLowerCase p = p)"

text \<open>
  A character of ASCII. The upper-case form of a prefix of such characters has the length
  of the prefix and no character code above 255.
\<close>

definition ascii :: "char \<Rightarrow> bool" where
  "ascii c = ((of_char c :: nat) < 128)"

text \<open>
  A registered network: it is in the registry, its prefix can be carried, and looking its
  prefix up gives the network itself.
\<close>

definition registered :: "registry \<Rightarrow> network \<Rightarrow> bool" where
  "registered reg n =
     (n \<in> set (networks reg) \<and> protocol_ok (protocol n) \<and> Networks_get reg (protocol n) = Some n)"

text \<open>The checksum register after the prefix and its separator have been read.\<close>

definition prefix_state :: "string \<Rightarrow> int" where
  "prefix_state p = fold (\<lambda>v checksum. polymod_step checksum v) (protocolToArray p @ [0]) 1"

text \<open>The networks whose prefixes the decoder tries when the text has none, in its order.\<close>

definition tried :: "registry \<Rightarrow> network option list" where
  "tried reg = map (Networks_get reg) [''livenet'', ''testnet'', ''regtest'']"

text \<open>
  The prefix of \<open>n\<close> can be inferred: the three names are known, one of them has the
  prefix of \<open>n\<close>, and a tried prefix that leaves the checksum register as the prefix of \<open>n\<close>
  does is the prefix of \<open>n\<close>.
\<close>

definition inferable :: "registry \<Rightarrow> network \<Rightarrow> bool" where
  "inferable reg n =
     (list_all (\<lambda>m. m \<noteq> None \<and>
          (prefix_state (protocol (the m)) = prefix_state (protocol n)
             \<longrightarrow> protocol (the m) = protocol n)) (tried reg)
      \<and> list_ex (\<lambda>m. map_option protocol m = Some (protocol n)) (tried reg))"

text \<open>The checksum register \<open>d\<close> after \<open>j\<close> further symbols 0.\<close>

definition zero_run :: "int \<Rightarrow> nat \<Rightarrow> int" where
  "zero_run d j = fold (\<lambda>v checksum. polymod_step checksum v) (replicate j 0) d"

text \<open>
  The tried prefixes are separated from the prefix of \<open>n\<close> over \<open>len\<close> symbols: the
  three names are known, and the difference of the checksum registers after a tried
  prefix and after the prefix of \<open>n\<close>, run over 1 to \<open>len\<close> symbols 0, is never one of the
  values 1 to 31 that a single changed symbol contributes.
\<close>

definition separated :: "registry \<Rightarrow> network \<Rightarrow> nat \<Rightarrow> bool" where
  "separated reg n len =
     list_all (\<lambda>m. m \<noteq> None \<and>
        list_all (\<lambda>j.
           let d = zero_run (prefix_state (protocol (the m)) XOR prefix_state (protocol n)) j
           in d = 0 \<or> 32 \<le> d) [1..<Suc len]) (tried reg)"

section \<open>Notions used in the proofs\<close>

text \<open>The characters that \<open>toLowerCase\<close> changes.\<close>

definition is_upper :: "char \<Rightarrow> bool" where
  "is_upper c = ((65 \<le> (of_char c :: nat) \<and> (of_char c :: nat) \<le> 90)
      \<or> (192 \<le> (of_char c :: nat) \<and> (of_char c :: nat) \<le> 222 \<and> (of_char c :: nat) \<noteq> 215))"

text \<open>The small letters of ASCII.\<close>

definition is_lower :: "char \<Rightarrow> bool" where
  "is_lower c = (97 \<le> (of_char c :: nat) \<and> (of_char c :: nat) \<le> 122)"

text \<open>The upper-case form of a character of ASCII.\<close>

definition upper_char :: "char \<Rightarrow> char" where
  "upper_char c = (let n = (of_char c :: nat) in if 97 \<le> n \<and> n \<le> 122 then char_of (n - 32) else c)"

text \<open>A generator constant when its bit of \<open>topBits\<close> is set, and the five of them.\<close>

definition gterm :: "bool \<Rightarrow> int \<Rightarrow> int" where
  "gterm b g = (if b then g else 0)"

definition gsum :: "int \<Rightarrow> int" where
  "gsum t = gterm (bit t 0) 0x98f2bc8e61 XOR gterm (bit t 1) 0x79b76d99e2 XOR gterm (bit t 2) 0xf33e5fb3c4
       XOR gterm (bit t 3) 0xae2eabe2a8 XOR gterm (bit t 4) 0x1e4f43e470"

text \<open>The outer loop of \<open>polymod\<close> from any register, and the registers of 40 bits.\<close>

definition run :: "int \<Rightarrow> nat list \<Rightarrow> int" where
  "run c vs = fold (\<lambda>v checksum. polymod_step checksum v) vs c"

definition in40 :: "int \<Rightarrow> bool" where
  "in40 c = (take_bit 40 c = c)"

section \<open>The checksum is linear and invertible\<close>


lemma upt5: "[0..<5] = [0, 1, 2, 3, 4]"
  by (simp add: upt_rec)

lemma apply_generators_gsum: "apply_generators t c = c XOR gsum t"
  by (simp add: apply_generators_def GENERATOR_def upt5 gsum_def gterm_def
      bit_iff_and_drop_bit_eq_1 [symmetric] eval_nat_numeral xor.assoc)

lemma mask35: "(0x07ffffffff::int) = mask 35"
  by (simp add: mask_eq_exp_minus_1)

lemma polymod_step_eq:
  "polymod_step c v = push_bit 5 (take_bit 35 c) XOR int v XOR gsum (drop_bit 35 c)"
  by (simp add: polymod_step_def Let_def apply_generators_gsum take_bit_eq_mask mask35 xor.assoc)

lemma gterm_xor: "gterm (a = (\<not> b)) g = gterm a g XOR gterm b g"
  by (simp add: gterm_def)

lemma gsum_xor: "gsum (s XOR t) = gsum s XOR gsum t"
  by (simp add: gsum_def bit_xor_iff gterm_xor xor.assoc xor.commute xor.left_commute)

lemma gsum_0: "gsum 0 = 0"
  by (simp add: gsum_def gterm_def)


lemma gterm_take: "take_bit n (gterm b g) = gterm b (take_bit n g)"
  by (simp add: gterm_def)

lemma gsum_low: "take_bit 5 (gsum t) =
    gterm (bit t 0) 1 XOR gterm (bit t 1) 2 XOR gterm (bit t 2) 4 XOR gterm (bit t 3) 8 XOR gterm (bit t 4) 16"
  by (simp add: gsum_def take_bit_xor gterm_take)

lemma gterm_bit: "bit (gterm b (2 ^ k)) n \<longleftrightarrow> b \<and> n = k"
  by (simp add: gterm_def bit_exp_iff)

lemma gsum_take_bit: "take_bit 5 (gsum t) = take_bit 5 t"
proof -
  have "take_bit 5 (gsum t) =
      gterm (bit t 0) (2 ^ 0) XOR gterm (bit t 1) (2 ^ 1) XOR gterm (bit t 2) (2 ^ 2)
        XOR gterm (bit t 3) (2 ^ 3) XOR gterm (bit t 4) (2 ^ 4)"
    by (simp add: gsum_low)
  also have "\<dots> = take_bit 5 t"
  proof (rule bit_eqI)
    fix n
    show "bit (gterm (bit t 0) (2 ^ 0) XOR gterm (bit t 1) (2 ^ 1) XOR gterm (bit t 2) (2 ^ 2)
        XOR gterm (bit t 3) (2 ^ 3) XOR gterm (bit t 4) (2 ^ 4)) n \<longleftrightarrow> bit (take_bit 5 t) n"
      unfolding bit_xor_iff gterm_bit bit_take_bit_iff
      by (cases "n < 5") (auto simp: less_Suc_eq eval_nat_numeral)
  qed
  finally show ?thesis .
qed

lemma gsum_40: "take_bit 40 (gsum t) = gsum t"
  by (simp add: gsum_def take_bit_xor gterm_take)

lemma polymod_step_40: "v < 32 \<Longrightarrow> take_bit 40 (polymod_step c v) = polymod_step c v"
proof -
  assume v: "v < 32"
  have a: "take_bit 40 (push_bit 5 (take_bit 35 c)) = push_bit 5 (take_bit 35 c)"
    by (rule bit_eqI) (auto simp add: bit_simps)
  have "int v < 2 ^ 40" using v by simp
  then have b: "take_bit 40 (int v) = int v"
    by (simp add: take_bit_int_eq_self)
  show ?thesis
    by (simp add: polymod_step_eq take_bit_xor a b gsum_40)
qed


lemma run_Nil [simp]: "run c [] = c"
  by (simp add: run_def)

lemma run_Cons [simp]: "run c (v # vs) = run (polymod_step c v) vs"
  by (simp add: run_def)

lemma run_append: "run c (xs @ ys) = run (run c xs) ys"
  by (simp add: run_def)

lemma polymod_run: "polymod data = run 1 data XOR 1"
  by (simp add: polymod_def run_def)

lemma in40_step: "v < 32 \<Longrightarrow> in40 (polymod_step c v)"
  by (simp add: in40_def polymod_step_40)

lemma in40_run: "in40 c \<Longrightarrow> \<forall>v\<in>set vs. v < 32 \<Longrightarrow> in40 (run c vs)"
  by (induction vs arbitrary: c) (simp_all add: in40_step)

lemma in40_bit: "in40 c \<Longrightarrow> bit c n \<Longrightarrow> n < 40"
  by (metis in40_def bit_take_bit_iff)

lemma in40_top: "in40 c \<Longrightarrow> take_bit 5 (drop_bit 35 c) = drop_bit 35 c"
proof (rule bit_eqI)
  fix n
  assume c: "in40 c"
  have "bit c (35 + n) \<Longrightarrow> n < 5"
    using in40_bit [OF c, of "35 + n"] by simp
  then show "bit (take_bit 5 (drop_bit 35 c)) n \<longleftrightarrow> bit (drop_bit 35 c) n"
    by (auto simp add: bit_take_bit_iff bit_drop_bit_eq)
qed

lemma step_top:
  assumes "in40 a" "in40 b" "polymod_step a v = polymod_step b w" "v < 32" "w < 32"
  shows "drop_bit 35 a XOR int v = drop_bit 35 b XOR int w"
proof -
  have low: "take_bit 5 (polymod_step c u) = take_bit 5 (int u) XOR take_bit 5 (drop_bit 35 c)" for c u
    by (simp add: polymod_step_eq take_bit_xor gsum_take_bit take_bit_push_bit)
  have small: "take_bit 5 (int u) = int u" if "u < 32" for u
    using that by (simp add: take_bit_int_eq_self)
  have "take_bit 5 (polymod_step a v) = take_bit 5 (polymod_step b w)"
    using assms(3) by simp
  then have "take_bit 5 (int v) XOR take_bit 5 (drop_bit 35 a)
      = take_bit 5 (int w) XOR take_bit 5 (drop_bit 35 b)"
    by (simp only: low)
  then have "int v XOR drop_bit 35 a = int w XOR drop_bit 35 b"
    by (simp only: small [OF assms(4)] small [OF assms(5)] in40_top [OF assms(1)] in40_top [OF assms(2)])
  then show ?thesis
    by (simp add: xor.commute)
qed

lemma xor_cancel_right: "(a::int) XOR c = b XOR c \<longleftrightarrow> a = b"
proof
  assume h: "a XOR c = b XOR c"
  have "a = (a XOR c) XOR c" by (simp add: xor.assoc)
  also have "\<dots> = (b XOR c) XOR c" by (simp only: h)
  also have "\<dots> = b" by (simp add: xor.assoc)
  finally show "a = b" .
qed simp

lemma xor_cancel_left: "(c::int) XOR a = c XOR b \<longleftrightarrow> a = b"
  by (simp add: xor.commute [of c] xor_cancel_right)

lemma step_inj_state:
  assumes "in40 a" "in40 b" "polymod_step a v = polymod_step b v" "v < 32"
  shows "a = b"
proof -
  have "drop_bit 35 a XOR int v = drop_bit 35 b XOR int v"
    using step_top [OF assms(1,2,3) assms(4) assms(4)] .
  then have top: "drop_bit 35 a = drop_bit 35 b"
    by (simp only: xor_cancel_right)
  have "push_bit 5 (take_bit 35 a) = push_bit 5 (take_bit 35 b)"
    using assms(3) by (simp add: polymod_step_eq top xor_cancel_right)
  then have low: "take_bit 35 a = take_bit 35 b"
    by (simp add: push_bit_eq_mult)
  have "a = push_bit 35 (drop_bit 35 a) + take_bit 35 a"
    by (simp add: bits_ident)
  also have "\<dots> = push_bit 35 (drop_bit 35 b) + take_bit 35 b"
    by (simp only: top low)
  also have "\<dots> = b"
    by (simp add: bits_ident)
  finally show ?thesis .
qed

lemma step_inj_value:
  assumes "polymod_step c v = polymod_step c w"
  shows "v = w"
proof -
  have "int v = int w"
    using assms by (simp add: polymod_step_eq xor_cancel_right xor_cancel_left)
  then show ?thesis by simp
qed

lemma run_inj:
  "in40 a \<Longrightarrow> in40 b \<Longrightarrow> \<forall>v\<in>set vs. v < 32 \<Longrightarrow> run a vs = run b vs \<Longrightarrow> a = b"
proof (induction vs arbitrary: a b)
  case Nil
  then show ?case by simp
next
  case (Cons v vs)
  have v: "v < 32" using Cons.prems(3) by simp
  have "polymod_step a v = polymod_step b v"
    using Cons.IH [of "polymod_step a v" "polymod_step b v"] Cons.prems v
    by (simp add: in40_step)
  then show ?case
    using step_inj_state Cons.prems(1,2) v by blast
qed

lemma step_xor:
  "polymod_step (a XOR b) v = polymod_step a 0 XOR polymod_step b v"
  by (simp add: polymod_step_eq take_bit_xor push_bit_xor drop_bit_xor gsum_xor
      xor.assoc xor.commute xor.left_commute)

lemma run_xor:
  "run (a XOR b) vs = run a (replicate (length vs) 0) XOR run b vs"
  by (induction vs arbitrary: a b) (simp_all add: step_xor)


lemma step_small:
  "polymod_step (take_bit 35 c) v = push_bit 5 (take_bit 35 c) XOR int v"
  by (simp add: polymod_step_eq drop_bit_take_bit gsum_0)

lemma and31: "(x::int) AND 31 = take_bit 5 x"
  by (simp add: take_bit_eq_mask mask_eq_exp_minus_1)

lemma digit_int: "int (nat ((x::int) AND 31)) = take_bit 5 x"
  by (simp add: and31)

lemma digits_step:
  "push_bit 5 (take_bit m (drop_bit 5 x)) XOR take_bit 5 x = take_bit (m + 5) (x::int)"
  by (rule bit_eqI) (auto simp add: bit_simps)

lemma run_digits:
  "k \<le> 8 \<Longrightarrow> run 0 (rev (checksum_digits k x)) = take_bit (5 * k) x"
proof (induction k arbitrary: x)
  case 0
  then show ?case by simp
next
  case (Suc k)
  have k: "5 * k \<le> 35" using Suc.prems by simp
  have "run 0 (rev (checksum_digits (Suc k) x))
      = polymod_step (take_bit (5 * k) (drop_bit 5 x)) (nat (x AND 31))"
    using Suc by (simp add: run_append)
  also have "take_bit (5 * k) (drop_bit 5 x) = take_bit 35 (take_bit (5 * k) (drop_bit 5 x))"
    using k by (simp add: min_def)
  also have "polymod_step \<dots> (nat (x AND 31))
      = push_bit 5 (take_bit 35 (take_bit (5 * k) (drop_bit 5 x))) XOR int (nat (x AND 31))"
    by (rule step_small)
  also have "\<dots> = push_bit 5 (take_bit (5 * k) (drop_bit 5 x)) XOR take_bit 5 x"
    using k by (simp only: digit_int take_bit_take_bit min_def if_False if_True) simp
  also have "\<dots> = take_bit (5 * Suc k) x"
    by (simp add: digits_step add.commute)
  finally show ?case .
qed

lemma digits_length: "length (checksum_digits k x) = k"
  by (induction k arbitrary: x) simp_all

lemma digits_small: "\<forall>v\<in>set (checksum_digits k x). v < 32"
proof (induction k arbitrary: x)
  case 0
  then show ?case by simp
next
  case (Suc k)
  have "take_bit 5 x < 2 ^ 5" by (rule take_bit_int_less_exp)
  then have "nat (x AND 31) < 32" by (simp add: and31 nat_less_iff)
  then show ?case using Suc by simp
qed

lemma checksumToArray_length: "length (checksumToArray x) = 8"
  by (simp add: checksumToArray_def digits_length)

lemma checksumToArray_small: "\<forall>v\<in>set (checksumToArray x). v < 32"
  using digits_small [of 8 x] by (simp add: checksumToArray_def)

lemma run_checksumToArray: "in40 x \<Longrightarrow> run 0 (checksumToArray x) = x"
  by (simp add: checksumToArray_def run_digits in40_def)

lemma in40_xor: "in40 a \<Longrightarrow> in40 b \<Longrightarrow> in40 (a XOR b)"
  by (simp add: in40_def take_bit_xor)

lemma in40_1: "in40 1"
  by (simp add: in40_def)

lemma in40_0: "in40 0"
  by (simp add: in40_def)

lemma checksum_closes:
  assumes "in40 s"
  shows "run s (checksumToArray (run s eight0 XOR 1)) = 1"
proof -
  let ?R = "run s eight0"
  have R: "in40 ?R"
    by (rule in40_run [OF assms]) (simp add: eight0_def)
  have x: "in40 (?R XOR 1)"
    by (rule in40_xor [OF R in40_1])
  have "run s (checksumToArray (?R XOR 1)) = run (s XOR 0) (checksumToArray (?R XOR 1))"
    by simp
  also have "\<dots> = run s (replicate 8 0) XOR run 0 (checksumToArray (?R XOR 1))"
    by (simp only: run_xor checksumToArray_length)
  also have "replicate 8 0 = eight0"
    by (simp add: eight0_def eval_nat_numeral)
  also have "run 0 (checksumToArray (?R XOR 1)) = ?R XOR 1"
    by (rule run_checksumToArray [OF x])
  also have "?R XOR (?R XOR 1) = 1"
    by (simp add: xor.assoc [symmetric])
  finally show ?thesis .
qed

section \<open>Regrouping bits and back\<close>


declare groups.simps [simp del]

lemma to_bits_length [simp]: "length (to_bits w v) = w"
  by (induction w) simp_all

lemma from_bits_acc_eq:
  "from_bits_acc a bs = a * 2 ^ length bs + from_bits_acc 0 bs"
proof (induction bs arbitrary: a)
  case Nil
  then show ?case by simp
next
  case (Cons b bs)
  define c :: nat where "c = (if b then 1 else 0)"
  have "from_bits_acc a (b # bs) = from_bits_acc (2 * a + c) bs"
    by (simp add: c_def)
  also have "\<dots> = (2 * a + c) * 2 ^ length bs + from_bits_acc 0 bs"
    by (rule Cons.IH)
  finally have l: "from_bits_acc a (b # bs) = (2 * a + c) * 2 ^ length bs + from_bits_acc 0 bs" .
  have "from_bits_acc 0 (b # bs) = from_bits_acc c bs"
    by (simp add: c_def)
  also have "\<dots> = c * 2 ^ length bs + from_bits_acc 0 bs"
    by (rule Cons.IH)
  finally have r: "from_bits_acc 0 (b # bs) = c * 2 ^ length bs + from_bits_acc 0 bs" .
  show ?case
    by (simp only: l r) (simp add: algebra_simps)
qed

lemma from_bits_Nil [simp]: "from_bits [] = 0"
  by (simp add: from_bits_def)

lemma from_bits_Cons:
  "from_bits (b # bs) = (if b then 2 ^ length bs else 0) + from_bits bs"
  using from_bits_acc_eq [of "if b then 1 else 0" bs] by (simp add: from_bits_def)

lemma from_bits_less: "from_bits bs < 2 ^ length bs"
  by (induction bs) (simp_all add: from_bits_Cons)

lemma from_to_bits: "from_bits (to_bits w v) = v mod 2 ^ w"
proof (induction w)
  case 0
  then show ?case by simp
next
  case (Suc w)
  have "v mod (2 ^ w * 2) = 2 ^ w * (v div 2 ^ w mod 2) + v mod 2 ^ w"
    by (rule mod_mult2_eq)
  then show ?case
    using Suc by (simp add: from_bits_Cons odd_iff_mod_2_eq_one mult.commute)
qed

lemma to_bits_cong: "u mod 2 ^ w = v mod 2 ^ w \<Longrightarrow> to_bits w u = to_bits w v"
proof (induction w)
  case 0
  then show ?case by simp
next
  case (Suc w)
  have a: "take_bit (Suc w) u = take_bit (Suc w) v"
    using Suc.prems by (simp add: take_bit_eq_mod)
  have "bit (take_bit (Suc w) u) w = bit (take_bit (Suc w) v) w"
    by (simp only: a)
  then have "bit u w = bit v w"
    by (simp only: bit_take_bit_iff lessI simp_thms)
  then have b: "odd (u div 2 ^ w) = odd (v div 2 ^ w)"
    by (simp add: bit_iff_odd)
  have "take_bit w (take_bit (Suc w) u) = take_bit w (take_bit (Suc w) v)"
    by (simp only: a)
  then have "take_bit w u = take_bit w v"
    by (simp add: min_def)
  then have "u mod 2 ^ w = v mod 2 ^ w"
    by (simp only: take_bit_eq_mod)
  then show ?case
    using Suc.IH b by simp
qed

lemma to_from_bits: "length bs = w \<Longrightarrow> to_bits w (from_bits bs) = bs"
proof (induction bs arbitrary: w)
  case Nil
  then show ?case by simp
next
  case (Cons b bs)
  obtain k where w: "w = Suc k" and k: "length bs = k"
    using Cons.prems by auto
  have r: "from_bits bs < 2 ^ k"
    using from_bits_less [of bs] k by simp
  have hi: "odd (from_bits (b # bs) div 2 ^ k) = b"
    using r by (simp add: from_bits_Cons k div_add_self1)
  have "from_bits (b # bs) mod 2 ^ k = from_bits bs mod 2 ^ k"
    by (simp add: from_bits_Cons k)
  then have "to_bits k (from_bits (b # bs)) = to_bits k (from_bits bs)"
    by (rule to_bits_cong)
  then show ?case
    using Cons.IH [OF k] hi by (simp add: w)
qed

lemma groups_short: "length r < n \<Longrightarrow> groups n r = []"
  by (simp add: groups.simps)

lemma groups_concat:
  "0 < n \<Longrightarrow> \<forall>x\<in>set xss. length x = n \<Longrightarrow> length r < n \<Longrightarrow> groups n (concat xss @ r) = xss"
proof (induction xss)
  case Nil
  then show ?case by (simp add: groups_short)
next
  case (Cons x xss)
  have x: "length x = n" using Cons.prems by simp
  have "groups n (concat (x # xss) @ r) = take n (x @ concat xss @ r) # groups n (drop n (x @ concat xss @ r))"
    using Cons.prems x by (subst groups.simps) simp
  then show ?case
    using Cons x by simp
qed

lemma groups_lengths: "\<forall>x\<in>set (groups n bs). length x = n"
proof (induction n bs rule: groups.induct)
  case (1 n bs)
  show ?case
  proof (cases "n = 0 \<or> length bs < n")
    case True
    then show ?thesis by (simp add: groups.simps)
  next
    case False
    then show ?thesis
      using 1 by (subst groups.simps) auto
  qed
qed

lemma groups_split:
  "0 < n \<Longrightarrow> concat (groups n bs) @ drop (n * length (groups n bs)) bs = bs
     \<and> length (drop (n * length (groups n bs)) bs) < n"
proof (induction n bs rule: groups.induct)
  case (1 n bs)
  show ?case
  proof (cases "length bs < n")
    case True
    then show ?thesis by (simp add: groups.simps)
  next
    case False
    have g: "groups n bs = take n bs # groups n (drop n bs)"
      using False 1(2) by (subst groups.simps) simp
    have ih: "concat (groups n (drop n bs)) @ drop (n * length (groups n (drop n bs))) (drop n bs) = drop n bs
       \<and> length (drop (n * length (groups n (drop n bs))) (drop n bs)) < n"
      using 1(1) False 1(2) by simp
    have d: "drop (n * length (groups n bs)) bs = drop (n * length (groups n (drop n bs))) (drop n bs)"
      by (simp add: g add.commute)
    show ?thesis
      using ih by (simp only: d) (simp add: g)
  qed
qed


lemma concat_to_bits_length: "length (concat (map (to_bits w) data)) = w * length data"
  by (induction data) simp_all

lemma map_to_from_bits:
  "\<forall>x\<in>set gs. length x = w \<Longrightarrow> map (to_bits w) (map from_bits gs) = gs"
  by (induction gs) (simp_all add: to_from_bits)

lemma map_from_to_bits:
  "\<forall>v\<in>set data. v < 2 ^ w \<Longrightarrow> map from_bits (map (to_bits w) data) = data"
  by (induction data) (simp_all add: from_to_bits)

lemma convertBits_roundtrip:
  assumes small: "\<forall>v\<in>set data. v < 256"
  shows "\<exists>syms. convertBits data 8 5 False = Inr syms \<and> (\<forall>v\<in>set syms. v < 32)
           \<and> convertBits syms 5 8 True = Inr data"
proof -
  define B where "B = concat (map (to_bits 8) data)"
  define full where "full = groups 5 B"
  define rest where "rest = drop (5 * length full) B"
  define pad where "pad = (if rest = [] then [] else replicate (5 - length rest) False)"
  define gs where "gs = full @ (if rest = [] then [] else [rest @ replicate (5 - length rest) False])"
  have split: "concat full @ rest = B" and rest_len: "length rest < 5"
    using groups_split [of 5 B] by (simp_all add: full_def rest_def)
  have full_len: "\<forall>x\<in>set full. length x = 5"
    by (simp add: full_def groups_lengths)
  have enc: "convertBits data 8 5 False = Inr (map from_bits gs)"
    unfolding convertBits_def Let_def B_def [symmetric] full_def [symmetric]
        rest_def [symmetric] gs_def
    by (simp del: drop_eq_Nil drop_eq_Nil2)
  have gs_len: "\<forall>x\<in>set gs. length x = 5"
    using full_len rest_len by (auto simp add: gs_def)
  have cat: "concat gs = B @ pad"
    using split by (cases "rest = []") (auto simp add: gs_def pad_def)
  have pad_len: "length pad < 8"
    using rest_len by (auto simp add: pad_def)
  have pad_zero: "list_all (\<lambda>b. \<not> b) pad"
    by (simp add: pad_def list_all_iff)
  have syms_small: "\<forall>v\<in>set (map from_bits gs). v < 32"
  proof
    fix v assume "v \<in> set (map from_bits gs)"
    then obtain g where g: "g \<in> set gs" and v: "v = from_bits g" by auto
    have "from_bits g < 2 ^ length g" by (rule from_bits_less)
    then show "v < 32" using gs_len g v by simp
  qed
  have bits': "concat (map (to_bits 5) (map from_bits gs)) = B @ pad"
    by (simp only: map_to_from_bits [OF gs_len] cat)
  have g8: "groups 8 (B @ pad) = map (to_bits 8) data"
    unfolding B_def by (rule groups_concat) (simp_all add: pad_len)
  have B_len: "length B = 8 * length data"
    by (simp add: B_def concat_to_bits_length)
  have rest8: "drop (8 * length (map (to_bits 8) data)) (B @ pad) = pad"
    by (simp add: B_len)
  have inv: "map from_bits (map (to_bits 8) data) = data"
    using small by (intro map_from_to_bits) simp
  have dec: "convertBits (map from_bits gs) 5 8 True = Inr data"
    unfolding convertBits_def Let_def bits' g8 rest8 inv
    using pad_zero by simp
  show ?thesis
    using enc syms_small dec by blast
qed

section \<open>Encoding and decoding\<close>


lemma charset_props:
  "list_all (\<lambda>v. index_of (CHARSET ! v) CHARSET = Some v \<and> lower_char (CHARSET ! v) = CHARSET ! v
       \<and> CHARSET ! v \<noteq> CHR '':'') [0..<32]"
  by code_simp

lemma charset_at:
  assumes "v < 32"
  shows "index_of (CHARSET ! v) CHARSET = Some v" "lower_char (CHARSET ! v) = CHARSET ! v"
    "CHARSET ! v \<noteq> CHR '':''"
  using charset_props assms by (simp_all add: list_all_iff)

lemma and_then_Inr [simp]: "and_then (Inr v) f = f v"
  by (simp add: and_then_def)

lemma and_then_Inl [simp]: "and_then (Inl e) f = Inl e"
  by (simp add: and_then_def)

lemma Base32_encode_ok:
  "\<forall>v\<in>set vs. v < 32 \<Longrightarrow> Base32_encode vs = Inr (map ((!) CHARSET) vs)"
  by (induction vs) simp_all

lemma Base32_decode_ok:
  "\<forall>v\<in>set vs. v < 32 \<Longrightarrow> Base32_decode (map ((!) CHARSET) vs) = Inr vs"
  by (induction vs) (simp_all add: charset_at)

lemma text_lower:
  "\<forall>v\<in>set vs. v < 32 \<Longrightarrow> toLowerCase (map ((!) CHARSET) vs) = map ((!) CHARSET) vs"
  by (induction vs) (simp_all add: toLowerCase_def charset_at)

lemma text_no_colon:
  "\<forall>v\<in>set vs. v < 32 \<Longrightarrow> CHR '':'' \<notin> set (map ((!) CHARSET) vs)"
  using charset_at(3) by fastforce

lemma split_none: "sep \<notin> set s \<Longrightarrow> split sep s = [s]"
  by (induction s) (auto simp add: Let_def)

lemma split_one: "sep \<notin> set a \<Longrightarrow> split sep (a @ sep # b) = a # split sep b"
  by (induction a) (auto simp add: Let_def)

lemma toLowerCase_append: "toLowerCase (a @ b) = toLowerCase a @ toLowerCase b"
  by (simp add: toLowerCase_def)

lemma lower_colon: "toLowerCase '':'' = '':''"
  by (simp add: toLowerCase_def lower_char_def)


lemma hasSingleCase_lower: "toLowerCase s = s \<Longrightarrow> hasSingleCase s"
  by (simp add: hasSingleCase_def)

lemma nat_and31: "(x::nat) AND 31 < 32"
proof -
  have "x AND 31 = take_bit 5 x"
    by (simp add: take_bit_eq_mask mask_eq_exp_minus_1)
  then show ?thesis
    using take_bit_nat_less_exp [of 5 x] by simp
qed

lemma protocolToArray_small: "\<forall>v\<in>set (protocolToArray p @ [0]). v < 32"
  by (simp add: protocolToArray_def nat_and31)

lemma xor_1_eq_0: "(a::int) XOR 1 = 0 \<longleftrightarrow> a = 1"
  using xor_cancel_right [of a 1 1] by simp

lemma validChecksum_run: "validChecksum p payload \<longleftrightarrow> run (run 1 (protocolToArray p @ [0])) payload = 1"
  by (simp add: validChecksum_def polymod_run run_append xor_1_eq_0)

lemma prefix_in40: "in40 (run 1 (protocolToArray p @ [0]))"
  by (rule in40_run [OF in40_1 protocolToArray_small])

lemma valid_encoded:
  assumes "\<forall>v\<in>set pd. v < 32"
  shows "validChecksum p (pd @ checksumToArray (polymod ((protocolToArray p @ [0]) @ pd @ eight0)))"
proof -
  let ?s = "run (run 1 (protocolToArray p @ [0])) pd"
  have s: "in40 ?s"
    by (rule in40_run [OF prefix_in40 assms])
  have "polymod ((protocolToArray p @ [0]) @ pd @ eight0) = run ?s eight0 XOR 1"
    by (simp add: polymod_run run_append)
  then show ?thesis
    using checksum_closes [OF s] by (simp add: validChecksum_run run_append)
qed

lemma decode_prefixed:
  assumes p: "p \<noteq> []" "CHR '':'' \<notin> set p" "toLowerCase p = p"
    and small: "\<forall>v\<in>set payload. v < 32"
  shows "decodeCashAddress reg (p @ CHR '':'' # map ((!) CHARSET) payload) =
     (if validChecksum p payload
      then and_then (convertBits (take (length payload - 8) payload) 5 8 True)
             (decode_version reg (p @ CHR '':'' # map ((!) CHARSET) payload) p)
      else Inl (InvalidArgument (''Invalid checksum:'' @ p @ CHR '':'' # map ((!) CHARSET) payload)))"
proof -
  let ?text = "map ((!) CHARSET) payload"
  let ?s = "p @ CHR '':'' # ?text"
  have "toLowerCase (p @ '':'' @ ?text) = p @ '':'' @ ?text"
    by (simp only: toLowerCase_append p(3) lower_colon text_lower [OF small])
  then have low: "toLowerCase ?s = ?s"
    by simp
  have sp: "split CHR '':'' ?s = [p, ?text]"
    using split_one [OF p(2), of ?text] split_none [OF text_no_colon [OF small]] by simp
  show ?thesis
    unfolding decodeCashAddress_def
    by (simp add: hasSingleCase_lower [OF low] low sp Let_def text_lower [OF small]
        Base32_decode_ok [OF small] check_protocol_def truthy_def p(1))
qed

lemma decode_bare:
  assumes small: "\<forall>v\<in>set payload. v < 32"
  shows "decodeCashAddress reg (map ((!) CHARSET) payload) =
     and_then (check_protocol reg (map ((!) CHARSET) payload) None payload) (\<lambda>q.
       and_then (convertBits (take (length payload - 8) payload) 5 8 True)
             (decode_version reg (map ((!) CHARSET) payload) q))"
proof -
  let ?text = "map ((!) CHARSET) payload"
  have low: "toLowerCase ?text = ?text"
    by (rule text_lower [OF small])
  have sp: "split CHR '':'' ?text = [?text]"
    by (rule split_none [OF text_no_colon [OF small]])
  show ?thesis
    unfolding decodeCashAddress_def
    by (simp add: hasSingleCase_lower [OF low] low sp Let_def Base32_decode_ok [OF small])
qed


lemma version_table:
  "list_all (\<lambda>sb. getHashSize sb = [160, 192, 224, 256, 320, 384, 448, 512] ! sb
      \<and> getHashSize (8 + sb) = [160, 192, 224, 256, 320, 384, 448, 512] ! sb
      \<and> getType sb = Inr ''pubkeyhash'' \<and> getType (8 + sb) = Inr ''scripthash'') [0, 1, 2, 3, 4, 5, 6, 7]"
  by code_simp

lemma size_bits:
  assumes "length h \<in> {20, 24, 28, 32, 40, 48, 56, 64}"
  shows "\<exists>sb\<in>set [0, 1, 2, 3, 4, 5, 6, 7]. getHashSizeBits h = Inr sb
           \<and> length h * 8 = [160, 192, 224, 256, 320, 384, 448, 512] ! sb"
  using assms by (auto simp add: getHashSizeBits_def Let_def)

lemma version_byte:
  assumes sz: "length h \<in> {20, 24, 28, 32, 40, 48, 56, 64}"
    and t: "t = ''pubkeyhash'' \<or> t = ''scripthash''"
  shows "\<exists>tb sb. getTypeBits t = Inr tb \<and> getHashSizeBits h = Inr sb \<and> tb + sb < 256
           \<and> getHashSize (tb + sb) = length h * 8 \<and> getType (tb + sb) = Inr t"
proof -
  obtain sb where sb: "sb \<in> set [0, 1, 2, 3, 4, 5, 6, 7]" "getHashSizeBits h = Inr sb"
    "length h * 8 = [160, 192, 224, 256, 320, 384, 448, 512] ! sb"
    using size_bits [OF sz] by blast
  have tab: "getHashSize sb = [160, 192, 224, 256, 320, 384, 448, 512] ! sb"
    "getHashSize (8 + sb) = [160, 192, 224, 256, 320, 384, 448, 512] ! sb"
    "getType sb = Inr ''pubkeyhash''" "getType (8 + sb) = Inr ''scripthash''"
    using version_table sb(1) unfolding list_all_iff by blast+
  have lt: "sb < 8" using sb(1) by auto
  show ?thesis
  proof (cases "t = ''pubkeyhash''")
    case True
    have "getTypeBits t = Inr 0" using True by (simp add: getTypeBits_def)
    then show ?thesis
      using sb(2,3) tab(1,3) lt True
      by (intro exI [of _ 0] exI [of _ sb]) simp
  next
    case False
    then have f: "t = ''scripthash''" using t by blast
    have "getTypeBits t = Inr 8" using f by (simp add: getTypeBits_def)
    then show ?thesis
      using sb(2,3) tab(2,4) lt f
      by (intro exI [of _ 8] exI [of _ sb]) simp
  qed
qed

lemma encode_shape:
  assumes sz: "length (hashBuffer a) \<in> {20, 24, 28, 32, 40, 48, 56, 64}"
    and t: "type a = ''pubkeyhash'' \<or> type a = ''scripthash''"
  shows "\<exists>pd vb. (\<forall>v\<in>set pd. v < 32)
      \<and> convertBits pd 5 8 True = Inr (vb # map unat (hashBuffer a))
      \<and> getHashSize vb = length (hashBuffer a) * 8 \<and> getType vb = Inr (type a)
      \<and> (\<forall>strip. toCashAddress a strip =
            Inr ((if strip then [] else protocol (network a) @ '':'') @
              map ((!) CHARSET)
                (pd @ checksumToArray
                   (polymod ((protocolToArray (protocol (network a)) @ [0]) @ pd @ eight0)))))"
proof -
  obtain tb sb where v: "getTypeBits (type a) = Inr tb" "getHashSizeBits (hashBuffer a) = Inr sb"
    "tb + sb < 256" "getHashSize (tb + sb) = length (hashBuffer a) * 8"
    "getType (tb + sb) = Inr (type a)"
    using version_byte [OF sz t] by blast
  have "\<forall>x\<in>set (map unat (hashBuffer a)). x < 256"
  proof
    fix x assume "x \<in> set (map unat (hashBuffer a))"
    then obtain w :: byte where "x = unat w" by auto
    then show "x < 256" using unsigned_less [of w, where ?'a = nat] by simp
  qed
  then have small: "\<forall>x\<in>set ((tb + sb) # map unat (hashBuffer a)). x < 256"
    using v(3) by simp
  obtain pd where pd: "convertBits ((tb + sb) # map unat (hashBuffer a)) 8 5 False = Inr pd"
    "\<forall>v\<in>set pd. v < 32" "convertBits pd 5 8 True = Inr ((tb + sb) # map unat (hashBuffer a))"
    using convertBits_roundtrip [OF small] by blast
  let ?chk = "checksumToArray (polymod ((protocolToArray (protocol (network a)) @ [0]) @ pd @ eight0))"
  have all: "\<forall>v\<in>set (pd @ ?chk). v < 32"
    using pd(2) checksumToArray_small by auto
  have all': "\<forall>v\<in>set (pd @ checksumToArray
       (polymod (protocolToArray (protocol (network a)) @ 0 # pd @ eight0))). v < 32"
    using all by simp
  have "toCashAddress a strip =
            Inr ((if strip then [] else protocol (network a) @ '':'') @ map ((!) CHARSET) (pd @ ?chk))" for strip
    unfolding toCashAddress_def
    using Base32_encode_ok [OF all']
    by (simp add: v(1,2) pd(1) Let_def)
  then show ?thesis
    using pd(2,3) v(4,5) by blast
qed

lemma of_nat_unat_bytes: "map (of_nat \<circ> unat) (h :: byte list) = h"
proof -
  have "of_nat \<circ> unat = (id :: byte \<Rightarrow> byte)"
    by (simp add: fun_eq_iff)
  then show ?thesis
    by (simp only: list.map_id)
qed

lemma decode_encode_prefixed:
  assumes sz: "length (hashBuffer a) \<in> {20, 24, 28, 32, 40, 48, 56, 64}"
    and t: "type a = ''pubkeyhash'' \<or> type a = ''scripthash''"
    and p: "protocol (network a) \<noteq> []" "CHR '':'' \<notin> set (protocol (network a))"
      "toLowerCase (protocol (network a)) = protocol (network a)"
  shows "\<exists>text. toCashAddress a False = Inr text \<and>
     decodeCashAddress reg text =
       Inr \<lparr>info_hashBuffer = hashBuffer a,
            info_network = Networks_get reg (protocol (network a)),
            info_type = Some (type a)\<rparr>"
proof -
  let ?p = "protocol (network a)"
  obtain pd vb where e: "\<forall>v\<in>set pd. v < 32"
    "convertBits pd 5 8 True = Inr (vb # map unat (hashBuffer a))"
    "getHashSize vb = length (hashBuffer a) * 8" "getType vb = Inr (type a)"
    "\<And>strip. toCashAddress a strip =
            Inr ((if strip then [] else ?p @ '':'') @ map ((!) CHARSET)
                (pd @ checksumToArray (polymod ((protocolToArray ?p @ [0]) @ pd @ eight0))))"
    using encode_shape [OF sz t] by blast
  let ?chk = "checksumToArray (polymod ((protocolToArray ?p @ [0]) @ pd @ eight0))"
  let ?payload = "pd @ ?chk"
  have all: "\<forall>v\<in>set ?payload. v < 32"
    using e(1) checksumToArray_small by auto
  have valid: "validChecksum ?p ?payload"
    by (rule valid_encoded [OF e(1)])
  have tk: "take (length ?payload - 8) ?payload = pd"
    by (simp add: checksumToArray_length)
  have enc: "toCashAddress a False = Inr (?p @ CHR '':'' # map ((!) CHARSET) ?payload)"
    using e(5) [of False] by simp
  have "decodeCashAddress reg (?p @ CHR '':'' # map ((!) CHARSET) ?payload) =
       Inr \<lparr>info_hashBuffer = hashBuffer a, info_network = Networks_get reg ?p,
            info_type = Some (type a)\<rparr>"
    by (simp only: decode_prefixed [OF p all] valid if_True tk e(2) and_then_Inr)
       (simp add: decode_version_def e(3,4) of_nat_unat_bytes)
  then show ?thesis
    using enc by blast
qed



section \<open>Inferring the prefix\<close>


lemma index_of_less: "index_of c s = Some v \<Longrightarrow> v < length s"
  by (induction s arbitrary: v) (auto split: if_splits)

lemma Base32_decode_small: "Base32_decode s = Inr vs \<Longrightarrow> \<forall>v\<in>set vs. v < 32"
proof (induction s arbitrary: vs)
  case Nil
  then show ?case by simp
next
  case (Cons c cs)
  from Cons.prems obtain v ws where v: "index_of c CHARSET = Some v"
    and ws: "Base32_decode cs = Inr ws" and vs: "vs = v # ws"
    by (auto simp add: and_then_def split: option.splits sum.splits)
  have "v < length CHARSET" using v by (rule index_of_less)
  then have "v < 32" by (simp add: CHARSET_def)
  then show ?case using Cons.IH [OF ws] vs by simp
qed

lemma prefix_state_run: "prefix_state p = run 1 (protocolToArray p @ [0])"
  by (simp add: prefix_state_def run_def)

lemma valid_same_state:
  assumes "\<forall>v\<in>set payload. v < 32" "validChecksum p payload" "validChecksum q payload"
  shows "prefix_state p = prefix_state q"
proof -
  have "run (prefix_state p) payload = run (prefix_state q) payload"
    using assms(2,3) by (simp add: validChecksum_run prefix_state_run)
  then show ?thesis
    using run_inj [OF _ _ assms(1)] prefix_in40 by (simp add: prefix_state_run)
qed

lemma tried_names:
  assumes "tried reg = [Some l, Some t, Some r]"
  shows "Networks_get reg ''livenet'' = Some l" "Networks_get reg ''testnet'' = Some t"
    "Networks_get reg ''regtest'' = Some r"
  using assms by (simp_all add: tried_def)

lemma check_protocol_first:
  assumes tr: "tried reg = [Some l, Some t, Some r]"
    and ne: "protocol l \<noteq> []" "protocol t \<noteq> []" "protocol r \<noteq> []"
  shows "check_protocol reg addr None payload =
     (case find (\<lambda>m. validChecksum (protocol m) payload) [l, t, r] of
        Some m \<Rightarrow> Inr (protocol m)
      | None \<Rightarrow> Inl (InvalidArgument (''Invalid checksum:'' @ addr)))"
  by (simp add: check_protocol_def tried_names [OF tr] truthy_def ne)

lemma lower_char_upper: "is_upper c \<Longrightarrow> lower_char c = char_of (of_char c + 32 :: nat)"
  by (simp add: lower_char_def Let_def is_upper_def)

lemma lower_char_other: "\<not> is_upper c \<Longrightarrow> lower_char c = c"
  by (auto simp add: lower_char_def Let_def is_upper_def)

lemma lower_char_code: "is_upper c \<Longrightarrow> (of_char (lower_char c) :: nat) = of_char c + 32"
proof -
  assume u: "is_upper c"
  have "(of_char c :: nat) + 32 < 256"
    using u unfolding is_upper_def by arith
  then show ?thesis
    by (simp add: lower_char_upper [OF u] of_char_of)
qed

lemma lower_not_upper: "\<not> is_upper (lower_char c)"
proof (cases "is_upper c")
  case True
  then show ?thesis
    using lower_char_code [OF True] unfolding is_upper_def by arith
next
  case False
  then show ?thesis by (simp add: lower_char_other)
qed

lemma lower_char_colon: "lower_char c = CHR '':'' \<longleftrightarrow> c = CHR '':''"
proof (cases "is_upper c")
  case True
  have "(of_char (lower_char c) :: nat) \<noteq> 58"
    using lower_char_code [OF True] True unfolding is_upper_def by arith
  then have "lower_char c \<noteq> CHR '':''" by auto
  moreover have "c \<noteq> CHR '':''" using True by (auto simp add: is_upper_def)
  ultimately show ?thesis by simp
next
  case False
  then show ?thesis by (simp add: lower_char_other)
qed

lemma toLowerCase_colon: "CHR '':'' \<in> set (toLowerCase s) \<longleftrightarrow> CHR '':'' \<in> set s"
proof (induction s)
  case Nil
  then show ?case by (simp add: toLowerCase_def)
next
  case (Cons c s)
  have "toLowerCase (c # s) = lower_char c # toLowerCase s"
    by (simp add: toLowerCase_def)
  then show ?case
    using Cons lower_char_colon [of c] by (simp add: eq_commute [of "CHR '':''"])
qed

lemma lower_char_idem: "lower_char (lower_char c) = lower_char c"
  by (rule lower_char_other [OF lower_not_upper])

lemma toLowerCase_idem: "toLowerCase (toLowerCase s) = toLowerCase s"
  by (simp add: toLowerCase_def lower_char_idem)

lemma decode_bare_any:
  assumes tr: "tried reg = [Some l, Some t, Some r]"
    and ne: "protocol l \<noteq> []" "protocol t \<noteq> []" "protocol r \<noteq> []"
    and s: "hasSingleCase s" "CHR '':'' \<notin> set s" "Base32_decode (toLowerCase s) = Inr payload"
  shows "decodeCashAddress reg s =
     (case find (\<lambda>m. validChecksum (protocol m) payload) [l, t, r] of
        None \<Rightarrow> Inl (InvalidArgument (''Invalid checksum:'' @ toLowerCase s))
      | Some m \<Rightarrow>
          and_then (convertBits (take (length payload - 8) payload) 5 8 True)
            (decode_version reg (toLowerCase s) (protocol m)))"
proof -
  have sp: "split CHR '':'' (toLowerCase s) = [toLowerCase s]"
    using s(2) by (intro split_none) (simp add: toLowerCase_colon)
  show ?thesis
    unfolding decodeCashAddress_def Let_def sp
    by (simp add: s(1) toLowerCase_idem s(3) check_protocol_first [OF tr ne] split: option.splits)
qed


lemma three_elems:
  assumes "length xs = 3" "list_all (\<lambda>m. m \<noteq> None) xs"
  shows "\<exists>a b c. xs = [Some a, Some b, Some c]"
proof -
  obtain x y z where xs: "xs = [x, y, z]"
    using assms(1) by (auto simp add: length_Suc_conv eval_nat_numeral)
  then show ?thesis using assms(2) by auto
qed

lemma check_protocol_inferred:
  assumes inf: "inferable reg n" and ne: "protocol n \<noteq> []"
    and small: "\<forall>v\<in>set payload. v < 32" and valid: "validChecksum (protocol n) payload"
  shows "check_protocol reg addr None payload = Inr (protocol n)"
proof -
  have "length (tried reg) = 3" by (simp add: tried_def)
  moreover have "list_all (\<lambda>m. m \<noteq> None) (tried reg)"
    using inf by (simp add: inferable_def list_all_iff)
  ultimately obtain l t r where tr: "tried reg = [Some l, Some t, Some r]"
    using three_elems by blast
  have sep: "validChecksum (protocol m) payload \<longrightarrow> protocol m = protocol n"
    if "m = l \<or> m = t \<or> m = r" for m
  proof
    assume v: "validChecksum (protocol m) payload"
    have "prefix_state (protocol m) = prefix_state (protocol n)"
      by (rule valid_same_state [OF small v valid])
    then show "protocol m = protocol n"
      using inf that unfolding inferable_def tr by auto
  qed
  have some: "protocol l = protocol n \<or> protocol t = protocol n \<or> protocol r = protocol n"
    using inf unfolding inferable_def tr by auto
  show ?thesis
    using sep [of l] sep [of t] sep [of r] some valid ne
    by (auto simp add: check_protocol_def tried_names [OF tr] truthy_def)
qed

lemma decode_encode_bare:
  assumes sz: "length (hashBuffer a) \<in> {20, 24, 28, 32, 40, 48, 56, 64}"
    and t: "type a = ''pubkeyhash'' \<or> type a = ''scripthash''"
    and ne: "protocol (network a) \<noteq> []"
    and inf: "inferable reg (network a)"
  shows "\<exists>text. toCashAddress a True = Inr text \<and>
     toCashAddress a False = Inr (protocol (network a) @ CHR '':'' # text) \<and>
     decodeCashAddress reg text =
       Inr \<lparr>info_hashBuffer = hashBuffer a,
            info_network = Networks_get reg (protocol (network a)),
            info_type = Some (type a)\<rparr>"
proof -
  let ?p = "protocol (network a)"
  obtain pd vb where e: "\<forall>v\<in>set pd. v < 32"
    "convertBits pd 5 8 True = Inr (vb # map unat (hashBuffer a))"
    "getHashSize vb = length (hashBuffer a) * 8" "getType vb = Inr (type a)"
    "\<And>strip. toCashAddress a strip =
            Inr ((if strip then [] else ?p @ '':'') @ map ((!) CHARSET)
                (pd @ checksumToArray (polymod ((protocolToArray ?p @ [0]) @ pd @ eight0))))"
    using encode_shape [OF sz t] by blast
  let ?chk = "checksumToArray (polymod ((protocolToArray ?p @ [0]) @ pd @ eight0))"
  let ?payload = "pd @ ?chk"
  let ?text = "map ((!) CHARSET) ?payload"
  have all: "\<forall>v\<in>set ?payload. v < 32"
    using e(1) checksumToArray_small by auto
  have valid: "validChecksum ?p ?payload"
    by (rule valid_encoded [OF e(1)])
  have tk: "take (length ?payload - 8) ?payload = pd"
    by (simp add: checksumToArray_length)
  have enc1: "toCashAddress a True = Inr ?text"
    using e(5) [of True] by simp
  have enc2: "toCashAddress a False = Inr (?p @ CHR '':'' # ?text)"
    using e(5) [of False] by simp
  have cp: "check_protocol reg ?text None ?payload = Inr ?p"
    by (rule check_protocol_inferred [OF inf ne all valid])
  have "decodeCashAddress reg ?text =
       Inr \<lparr>info_hashBuffer = hashBuffer a, info_network = Networks_get reg ?p,
            info_type = Some (type a)\<rparr>"
    by (simp only: decode_bare [OF all] cp tk e(2) and_then_Inr)
       (simp add: decode_version_def e(3,4) of_nat_unat_bytes)
  then show ?thesis
    using enc1 enc2 by blast
qed


section \<open>Upper and lower case\<close>


lemma upper_char_lower: "is_lower c \<Longrightarrow> upper_char c = char_of (of_char c - 32 :: nat)"
  by (simp add: upper_char_def Let_def is_lower_def)

lemma upper_char_other: "\<not> is_lower c \<Longrightarrow> upper_char c = c"
  by (auto simp add: upper_char_def Let_def is_lower_def)

lemma upper_char_code: "is_lower c \<Longrightarrow> (of_char (upper_char c) :: nat) = of_char c - 32"
proof -
  assume l: "is_lower c"
  have "(of_char c :: nat) - 32 < 256"
    using l unfolding is_lower_def by arith
  then show ?thesis
    by (simp add: upper_char_lower [OF l] of_char_of)
qed

lemma upper_char_range:
  "is_lower c \<Longrightarrow> is_upper (upper_char c) \<and> \<not> is_lower (upper_char c) \<and> ascii (upper_char c)"
  unfolding is_upper_def is_lower_def ascii_def
proof -
  assume l: "97 \<le> (of_char c :: nat) \<and> (of_char c :: nat) \<le> 122"
  then have "is_lower c" by (simp add: is_lower_def)
  then have e: "(of_char (upper_char c) :: nat) = of_char c - 32"
    by (rule upper_char_code)
  show "((65 \<le> (of_char (upper_char c) :: nat) \<and> (of_char (upper_char c) :: nat) \<le> 90)
        \<or> (192 \<le> (of_char (upper_char c) :: nat) \<and> (of_char (upper_char c) :: nat) \<le> 222
            \<and> (of_char (upper_char c) :: nat) \<noteq> 215))
      \<and> \<not> (97 \<le> (of_char (upper_char c) :: nat) \<and> (of_char (upper_char c) :: nat) \<le> 122)
      \<and> (of_char (upper_char c) :: nat) < 128"
    unfolding e using l by arith
qed

lemma lower_upper_char: "lower_char c = c \<Longrightarrow> lower_char (upper_char c) = c"
proof (cases "is_lower c")
  case True
  have u: "is_upper (upper_char c)"
    using upper_char_range [OF True] by simp
  have "lower_char (upper_char c) = char_of (of_char (upper_char c) + 32 :: nat)"
    by (rule lower_char_upper [OF u])
  also have "(of_char (upper_char c) + 32 :: nat) = of_char c"
    unfolding upper_char_code [OF True] using True unfolding is_lower_def by arith
  finally show ?thesis by simp
next
  case False
  assume "lower_char c = c"
  then show ?thesis using False by (simp add: upper_char_other)
qed

lemma upper_char_ascii: "ascii c \<Longrightarrow> ascii (upper_char c) \<and> \<not> is_lower (upper_char c)"
  using upper_char_range [of c] by (cases "is_lower c") (simp_all add: upper_char_other)

lemma upper_codes_other: "ascii c \<Longrightarrow> \<not> is_lower c \<Longrightarrow> upper_codes c = [of_char c]"
  by (auto simp add: upper_codes_def Let_def ascii_def is_lower_def)

lemma upper_codes_ascii: "ascii c \<Longrightarrow> upper_codes c = [of_char (upper_char c)]"
proof (cases "is_lower c")
  case True
  then have "upper_codes c = [of_char c - 32]"
    by (simp add: upper_codes_def Let_def is_lower_def)
  then show ?thesis
    by (simp add: upper_char_code [OF True])
next
  case False
  assume "ascii c"
  then show ?thesis
    using False by (simp add: upper_codes_other upper_char_other)
qed

lemma toUpperCase_ascii: "list_all ascii s \<Longrightarrow> toUpperCase s = char_codes (map upper_char s)"
  by (induction s) (simp_all add: toUpperCase_def char_codes_def upper_codes_ascii)

lemma toUpperCase_upper:
  "list_all ascii s \<Longrightarrow> toUpperCase (map upper_char s) = char_codes (map upper_char s)"
proof (induction s)
  case Nil
  then show ?case by (simp add: toUpperCase_def char_codes_def)
next
  case (Cons c s)
  have "upper_codes (upper_char c) = [of_char (upper_char c)]"
    using Cons.prems upper_char_ascii [of c] by (intro upper_codes_other) simp_all
  then show ?case
    using Cons by (simp add: toUpperCase_def char_codes_def)
qed

lemma char_codes_inj: "char_codes u = char_codes v \<Longrightarrow> u = v"
  unfolding char_codes_def
proof (induction u arbitrary: v)
  case Nil
  then show ?case by simp
next
  case (Cons c u)
  then obtain d w where v: "v = d # w"
    by (cases v) auto
  have "(of_char c :: nat) = of_char d" "map of_char u = (map of_char w :: nat list)"
    using Cons.prems v by simp_all
  then show ?case
    using Cons.IH [of w] v by simp
qed

lemma lower_upper: "toLowerCase s = s \<Longrightarrow> toLowerCase (map upper_char s) = s"
proof (induction s)
  case Nil
  then show ?case by (simp add: toLowerCase_def)
next
  case (Cons c s)
  then have "lower_char c = c" "toLowerCase s = s"
    by (simp_all add: toLowerCase_def)
  then show ?case
    using Cons.IH by (simp add: toLowerCase_def lower_upper_char)
qed

lemma decode_upper:
  assumes low: "toLowerCase s = s" and asc: "list_all ascii s"
    and u: "char_codes u = toUpperCase s"
  shows "decodeCashAddress reg u = decodeCashAddress reg s"
proof -
  have eq: "u = map upper_char s"
    using u toUpperCase_ascii [OF asc] by (intro char_codes_inj) simp
  have a: "hasSingleCase u"
    unfolding eq by (simp add: hasSingleCase_def toUpperCase_upper [OF asc])
  have b: "hasSingleCase s"
    by (rule hasSingleCase_lower [OF low])
  have c: "toLowerCase u = s"
    unfolding eq by (rule lower_upper [OF low])
  show ?thesis
    unfolding decodeCashAddress_def
    by (simp only: a b c low)
qed

lemma mixed_case: "m \<noteq> toLowerCase m \<Longrightarrow> char_codes m \<noteq> toUpperCase m
    \<Longrightarrow> decodeCashAddress reg m = Inl (InvalidArgument ''Mixed case'')"
  by (simp add: decodeCashAddress_def hasSingleCase_def)

lemma charset_ascii: "list_all ascii CHARSET"
  by code_simp

lemma text_ascii: "\<forall>v\<in>set vs. v < 32 \<Longrightarrow> list_all ascii (map ((!) CHARSET) vs)"
proof -
  assume small: "\<forall>v\<in>set vs. v < 32"
  have "length CHARSET = 32"
    by (simp add: CHARSET_def)
  then have "ascii (CHARSET ! v)" if "v < 32" for v
    using charset_ascii that by (simp add: list_all_length)
  then show ?thesis
    using small by (simp add: list_all_iff)
qed

lemma encoded_lower:
  assumes sz: "length (hashBuffer a) \<in> {20, 24, 28, 32, 40, 48, 56, 64}"
    and t: "type a = ''pubkeyhash'' \<or> type a = ''scripthash''"
    and p: "toLowerCase (protocol (network a)) = protocol (network a)"
    and e: "toCashAddress a strip = Inr s"
  shows "toLowerCase s = s"
proof -
  let ?p = "protocol (network a)"
  obtain pd vb where sh: "\<forall>v\<in>set pd. v < 32"
    "\<And>strip. toCashAddress a strip =
            Inr ((if strip then [] else ?p @ '':'') @ map ((!) CHARSET)
                (pd @ checksumToArray (polymod ((protocolToArray ?p @ [0]) @ pd @ eight0))))"
    using encode_shape [OF sz t] by blast
  let ?payload = "pd @ checksumToArray (polymod ((protocolToArray ?p @ [0]) @ pd @ eight0))"
  have all: "\<forall>v\<in>set ?payload. v < 32"
    using sh(1) checksumToArray_small by auto
  have s: "s = (if strip then [] else ?p @ '':'') @ map ((!) CHARSET) ?payload"
    using e sh(2) [of strip] by simp
  have "toLowerCase ((if strip then [] else ?p @ '':'') @ map ((!) CHARSET) ?payload)
      = (if strip then [] else ?p @ '':'') @ map ((!) CHARSET) ?payload"
    by (simp only: toLowerCase_append text_lower [OF all] if_distrib [of toLowerCase] p lower_colon)
       (simp add: toLowerCase_def)
  then show ?thesis
    by (simp only: s)
qed


lemma encoded_ascii:
  assumes sz: "length (hashBuffer a) \<in> {20, 24, 28, 32, 40, 48, 56, 64}"
    and t: "type a = ''pubkeyhash'' \<or> type a = ''scripthash''"
    and p: "list_all ascii (protocol (network a))"
    and e: "toCashAddress a strip = Inr s"
  shows "list_all ascii s"
proof -
  let ?p = "protocol (network a)"
  obtain pd vb where sh: "\<forall>v\<in>set pd. v < 32"
    "\<And>strip. toCashAddress a strip =
            Inr ((if strip then [] else ?p @ '':'') @ map ((!) CHARSET)
                (pd @ checksumToArray (polymod ((protocolToArray ?p @ [0]) @ pd @ eight0))))"
    using encode_shape [OF sz t] by blast
  let ?payload = "pd @ checksumToArray (polymod ((protocolToArray ?p @ [0]) @ pd @ eight0))"
  have all: "\<forall>v\<in>set ?payload. v < 32"
    using sh(1) checksumToArray_small by auto
  have s: "s = (if strip then [] else ?p @ '':'') @ map ((!) CHARSET) ?payload"
    using e sh(2) [of strip] by simp
  have c: "ascii CHR '':''"
    by (simp add: ascii_def)
  have "list_all ascii (map ((!) CHARSET) ?payload)"
    by (rule text_ascii [OF all])
  then show ?thesis
    unfolding s using p c by (simp del: map_append)
qed


section \<open>The binary form\<close>


lemma find_SomeD: "find P xs = Some x \<Longrightarrow> x \<in> set xs \<and> P x"
  by (induction xs) (auto split: if_splits)

lemma find_NoneI: "\<forall>x\<in>set xs. \<not> P x \<Longrightarrow> find P xs = None"
  by (induction xs) auto

lemma classifyFromVersion_Some:
  assumes "classifyFromVersion reg b = Some (n, t)"
  shows "n \<in> set (networks reg) \<and>
     (t = PayToPublicKeyHash \<and> prefix_pubkeyhash n = b
        \<and> Networks_get_key reg b prefix_pubkeyhash = Some n
      \<or> t = PayToScriptHash \<and> prefix_scripthash n = b
        \<and> Networks_get_key reg b prefix_pubkeyhash = None
        \<and> Networks_get_key reg b prefix_scripthash = Some n)"
  using assms unfolding classifyFromVersion_def Networks_get_key_def
  by (auto split: option.splits dest: find_SomeD)

lemma classifyFromVersion_None:
  assumes "\<forall>n\<in>set (networks reg). prefix_pubkeyhash n \<noteq> b \<and> prefix_scripthash n \<noteq> b"
  shows "classifyFromVersion reg b = None"
proof -
  have "find (\<lambda>n. prefix_pubkeyhash n = b) (networks reg) = None"
    by (rule find_NoneI) (use assms in blast)
  moreover have "find (\<lambda>n. prefix_scripthash n = b) (networks reg) = None"
    by (rule find_NoneI) (use assms in blast)
  ultimately show ?thesis
    by (simp add: classifyFromVersion_def Networks_get_key_def)
qed


section \<open>A changed symbol changes the checksum\<close>


lemma zero_run_run: "zero_run d j = run d (replicate j 0)"
  by (simp add: zero_run_def run_def)

lemma step_zero: "polymod_step c v = polymod_step c 0 XOR int v"
  by (simp add: polymod_step_eq xor.assoc xor.commute xor.left_commute)

lemma run_zero_0: "run 0 (replicate j 0) = 0"
proof (induction j)
  case 0
  then show ?case by simp
next
  case (Suc j)
  have "polymod_step 0 0 = 0"
    by (simp add: polymod_step_eq gsum_0)
  then show ?case using Suc by simp
qed

lemma run_diff: "run a vs XOR run b vs = run (a XOR b) (replicate (length vs) 0)"
proof -
  have "run ((a XOR b) XOR b) vs = run (a XOR b) (replicate (length vs) 0) XOR run b vs"
    by (rule run_xor)
  moreover have "(a XOR b) XOR b = a"
    by (simp add: xor.assoc)
  ultimately have "run a vs = run (a XOR b) (replicate (length vs) 0) XOR run b vs"
    by simp
  then show ?thesis
    by (simp add: xor.assoc)
qed

lemma small_xor:
  assumes "v < 32" "w < 32" "v \<noteq> (w :: nat)"
  shows "int v XOR int w \<noteq> 0 \<and> int v XOR int w < 32"
proof
  show "int v XOR int w \<noteq> 0"
  proof
    assume "int v XOR int w = 0"
    then have "int v XOR int w = int w XOR int w" by simp
    then have "int v = int w" by (simp only: xor_cancel_right)
    then show False using assms(3) by simp
  qed
next
  have "take_bit 5 (int v) = int v" "take_bit 5 (int w) = int w"
    using assms(1,2) by (simp_all add: take_bit_int_eq_self)
  then have "take_bit 5 (int v XOR int w) = int v XOR int w"
    by (simp add: take_bit_xor)
  then show "int v XOR int w < 32"
    using take_bit_int_less_exp [of 5 "int v XOR int w"] by simp
qed

lemma substitution_detected:
  assumes a: "in40 a" and b: "in40 b"
    and small: "\<forall>v\<in>set xs. v < 32" and k: "k < length xs"
    and w: "w < 32" "w \<noteq> xs ! k"
    and valid: "run b xs = 1"
    and far: "run (a XOR b) (replicate (Suc k) 0) = 0 \<or> 32 \<le> run (a XOR b) (replicate (Suc k) 0)"
  shows "run a (xs[k := w]) \<noteq> 1"
proof
  assume bad: "run a (xs[k := w]) = 1"
  let ?pre = "take k xs" and ?post = "drop (Suc k) xs" and ?v = "xs ! k"
  have xs: "xs = ?pre @ ?v # ?post"
    using k by (rule id_take_nth_drop)
  have xs': "xs[k := w] = ?pre @ w # ?post"
    using k by (rule upd_conv_take_nth_drop)
  have pre_small: "\<forall>v\<in>set ?pre. v < 32" and post_small: "\<forall>v\<in>set ?post. v < 32"
    using small by (auto dest: in_set_takeD in_set_dropD)
  have v: "?v < 32" using small k by simp
  let ?A = "run a ?pre" and ?B = "run b ?pre"
  have A: "in40 ?A" and B: "in40 ?B"
    using in40_run [OF a pre_small] in40_run [OF b pre_small] by simp_all
  have "run (polymod_step ?A w) ?post = run a (xs[k := w])"
    by (subst xs') (simp add: run_append)
  moreover have "run (polymod_step ?B ?v) ?post = run b xs"
    by (subst (2) xs) (simp add: run_append)
  ultimately have "run (polymod_step ?A w) ?post = run (polymod_step ?B ?v) ?post"
    using bad valid by simp
  then have eq: "polymod_step ?A w = polymod_step ?B ?v"
    using run_inj [OF in40_step [OF w(1)] in40_step [OF v] post_small] by blast
  have "polymod_step (?A XOR ?B) 0 = polymod_step ?A 0 XOR polymod_step ?B 0"
    by (rule step_xor)
  also have "polymod_step ?A 0 = polymod_step ?A w XOR int w"
    by (subst step_zero [of ?A w]) (simp add: xor.assoc)
  also have "polymod_step ?B 0 = polymod_step ?B ?v XOR int ?v"
    by (subst step_zero [of ?B ?v]) (simp add: xor.assoc)
  finally have "polymod_step (?A XOR ?B) 0 = int w XOR int ?v"
    by (simp add: eq xor.assoc xor.left_commute)
  moreover have "?A XOR ?B = run (a XOR b) (replicate k 0)"
    using run_diff [of a ?pre b] k by simp
  ultimately have "run (a XOR b) (replicate k 0 @ [0]) = int w XOR int ?v"
    by (simp add: run_append)
  moreover have "replicate k (0::nat) @ [0] = replicate (Suc k) 0"
    by (simp add: replicate_append_same)
  ultimately have "run (a XOR b) (replicate (Suc k) 0) = int w XOR int ?v"
    by simp
  then show False
    using far small_xor [OF w(1) v w(2)] by auto
qed


lemma substituted_invalid:
  assumes small: "\<forall>v\<in>set payload. v < 32" and k: "k < length payload"
    and w: "w < 32" "w \<noteq> payload ! k"
    and valid: "validChecksum p payload"
    and far: "zero_run (prefix_state q XOR prefix_state p) (Suc k) = 0
        \<or> 32 \<le> zero_run (prefix_state q XOR prefix_state p) (Suc k)"
  shows "\<not> validChecksum q (payload[k := w])"
proof -
  have v: "run (prefix_state p) payload = 1"
    using valid by (simp add: validChecksum_run prefix_state_run)
  have a: "in40 (prefix_state q)" and b: "in40 (prefix_state p)"
    using prefix_in40 by (simp_all add: prefix_state_run)
  have "run (prefix_state q) (payload[k := w]) \<noteq> 1"
    using substitution_detected [OF a b small k w v] far by (simp add: zero_run_run)
  then show ?thesis
    by (simp add: validChecksum_run prefix_state_run)
qed

lemma same_prefix_far: "zero_run (prefix_state p XOR prefix_state p) j = 0"
  by (simp add: zero_run_run run_zero_0)

lemma separated_far:
  assumes "separated reg n len" "tried reg = [Some l, Some t, Some r]" "k < len"
    and "m = l \<or> m = t \<or> m = r"
  shows "zero_run (prefix_state (protocol m) XOR prefix_state (protocol n)) (Suc k) = 0
        \<or> 32 \<le> zero_run (prefix_state (protocol m) XOR prefix_state (protocol n)) (Suc k)"
proof -
  have "Suc k \<in> set [1..<Suc len]"
    using assms(3) by auto
  then show ?thesis
    using assms(1,4) unfolding separated_def assms(2) list_all_iff Let_def by auto
qed

lemma check_protocol_none:
  assumes tr: "tried reg = [Some l, Some t, Some r]"
    and "\<not> validChecksum (protocol l) payload" "\<not> validChecksum (protocol t) payload"
      "\<not> validChecksum (protocol r) payload"
  shows "check_protocol reg addr None payload = Inl (InvalidArgument (''Invalid checksum:'' @ addr))"
  using assms(2,3,4) by (simp add: check_protocol_def tried_names [OF tr] truthy_def)

lemma charset_index: "c \<in> set CHARSET \<Longrightarrow> \<exists>w<32. c = CHARSET ! w"
proof -
  assume "c \<in> set CHARSET"
  then obtain i where "i < length CHARSET" "CHARSET ! i = c"
    by (auto simp add: in_set_conv_nth)
  moreover have "length CHARSET = 32" by (simp add: CHARSET_def)
  ultimately show ?thesis by auto
qed


section \<open>Facts about the registry \<open>bch_registry\<close>\<close>

lemma bch_registered:
  "registered bch_registry livenet \<and> registered bch_registry testnet \<and> registered bch_registry regtest"
  by code_simp

lemma bch_tried: "tried bch_registry = [Some livenet, Some testnet, Some regtest]"
  by code_simp

lemma bch_inferable:
  "inferable bch_registry livenet \<and> inferable bch_registry testnet \<and> inferable bch_registry regtest"
  by code_simp

lemma bch_protocols:
  "protocol livenet = ''bitcoincash''" "protocol testnet = ''bchtest''" "protocol regtest = ''bchreg''"
  by (simp_all add: livenet_def testnet_def regtest_def)

section \<open>The version byte\<close>


lemma and7: "(vb::nat) AND 7 < 8"
proof -
  have "vb AND 7 = take_bit 3 vb"
    by (simp add: take_bit_eq_mask mask_eq_exp_minus_1)
  then show ?thesis
    using take_bit_nat_less_exp [of 3 vb] by simp
qed

lemma getHashSize_table:
  "getHashSize vb = [160, 192, 224, 256, 320, 384, 448, 512] ! (vb AND 7)"
proof -
  have "vb AND 7 \<in> {0, 1, 2, 3, 4, 5, 6, 7}"
    using and7 [of vb] by auto
  then show ?thesis
    by (auto simp add: getHashSize_def Let_def)
qed

lemma decode_version_cases:
  "decode_version reg addr p (versionByte # hash) =
     (if [160, 192, 224, 256, 320, 384, 448, 512] ! (versionByte AND 7) \<noteq> length hash * 8
      then Inl (InvalidArgument (''Invalid hash size:'' @ addr))
      else if versionByte AND 0x78 = 0
      then Inr \<lparr>info_hashBuffer = map of_nat hash, info_network = Networks_get reg p,
                info_type = Some PayToPublicKeyHash\<rparr>
      else if versionByte AND 0x78 = 8
      then Inr \<lparr>info_hashBuffer = map of_nat hash, info_network = Networks_get reg p,
                info_type = Some PayToScriptHash\<rparr>
      else Inl (Error (''Invalid address type in version byte:'' @ show_nat versionByte)))"
  by (simp add: decode_version_def getHashSize_table getType_def Let_def
      PayToPublicKeyHash_def PayToScriptHash_def)

lemma decodeCashAddress_stages:
  assumes "decodeCashAddress reg s = Inr i"
  shows "\<exists>payload p convertedBits.
           Base32_decode (toLowerCase (last (split CHR '':'' (toLowerCase s)))) = Inr payload
         \<and> convertBits (take (length payload - 8) payload) 5 8 True = Inr convertedBits
         \<and> decode_version reg (toLowerCase s) p convertedBits = Inr i"
proof -
  let ?pieces = "split CHR '':'' (toLowerCase s)"
  have len: "length ?pieces \<le> 2"
    using assms unfolding decodeCashAddress_def Let_def by (auto split: if_splits)
  have ne: "?pieces \<noteq> []"
    by (cases "toLowerCase s") (simp_all add: Let_def)
  have l: "(if length ?pieces = 2 then ?pieces ! 1 else ?pieces ! 0) = last ?pieces"
  proof (cases ?pieces)
    case Nil
    then show ?thesis using ne by simp
  next
    case (Cons a rest)
    then show ?thesis using len by (cases rest) simp_all
  qed
  show ?thesis
    using assms unfolding decodeCashAddress_def Let_def l and_then_def
    by (auto split: if_splits sum.splits)
qed

section \<open>A golden address\<close>


lemma golden_regroup: "convertBits (0 # replicate 20 0) 8 5 False = Inr (replicate 34 0)"
  by code_simp

lemma golden_checksum: "checksumToArray (polymod (protocolToArray ''bitcoincash'' @ 0 # replicate 34 0 @ eight0))
   = [9, 19, 23, 22, 16, 26, 15, 17]"
  by code_simp

lemma golden_text: "Base32_encode (replicate 34 0 @ [9, 19, 23, 22, 16, 26, 15, 17])
   = Inr ''qqqqqqqqqqqqqqqqqqqqqqqqqqqqqqqqqqfnhks603''"
  by code_simp

lemma golden_encode:
  "toCashAddress \<lparr>hashBuffer = replicate 20 0, network = livenet, type = PayToPublicKeyHash\<rparr> False
     = Inr ''bitcoincash:qqqqqqqqqqqqqqqqqqqqqqqqqqqqqqqqqqfnhks603''"
proof -
  have t: "getTypeBits PayToPublicKeyHash = Inr 0"
    by (simp add: getTypeBits_def PayToPublicKeyHash_def)
  have s: "getHashSizeBits (replicate 20 0) = Inr 0"
    by (simp add: getHashSizeBits_def)
  have u: "map unat (replicate 20 (0::byte)) = replicate 20 0"
    by simp
  have p: "protocol livenet = ''bitcoincash''"
    by (simp add: livenet_def)
  show ?thesis
    unfolding toCashAddress_def Let_def
    by (simp only: address.simps t s u p and_then_Inr add_0 golden_regroup if_False) (simp add: golden_checksum golden_text)
qed


lemma golden_decode:
  "decodeCashAddress bch_registry ''bitcoincash:qqqqqqqqqqqqqqqqqqqqqqqqqqqqqqqqqqfnhks603''
     = Inr \<lparr>info_hashBuffer = replicate 20 0, info_network = Some livenet,
            info_type = Some PayToPublicKeyHash\<rparr>"
proof -
  let ?a = "\<lparr>hashBuffer = replicate 20 0, network = livenet, type = PayToPublicKeyHash\<rparr>"
  have sz: "length (hashBuffer ?a) \<in> {20, 24, 28, 32, 40, 48, 56, 64}"
    by simp
  have t: "type ?a = ''pubkeyhash'' \<or> type ?a = ''scripthash''"
    by (simp add: PayToPublicKeyHash_def)
  have p: "protocol (network ?a) \<noteq> []" "CHR '':'' \<notin> set (protocol (network ?a))"
    "toLowerCase (protocol (network ?a)) = protocol (network ?a)"
    using bch_registered by (simp_all add: registered_def protocol_ok_def)
  have n: "Networks_get bch_registry (protocol (network ?a)) = Some livenet"
    using bch_registered by (simp add: registered_def)
  show ?thesis
    using decode_encode_prefixed [OF sz t p, of bch_registry] n
    by (simp add: golden_encode)
qed

section \<open>The golden address without its prefix\<close>


lemma bch_separated: "separated bch_registry livenet 42"
  by code_simp

lemma golden_encode_bare:
  "toCashAddress \<lparr>hashBuffer = replicate 20 0, network = livenet, type = PayToPublicKeyHash\<rparr> True
     = Inr ''qqqqqqqqqqqqqqqqqqqqqqqqqqqqqqqqqqfnhks603''"
proof -
  have t: "getTypeBits PayToPublicKeyHash = Inr 0"
    by (simp add: getTypeBits_def PayToPublicKeyHash_def)
  have s: "getHashSizeBits (replicate 20 0) = Inr 0"
    by (simp add: getHashSizeBits_def)
  have u: "map unat (replicate 20 (0::byte)) = replicate 20 0"
    by simp
  have p: "protocol livenet = ''bitcoincash''"
    by (simp add: livenet_def)
  show ?thesis
    unfolding toCashAddress_def Let_def
    by (simp only: address.simps t s u p and_then_Inr add_0 golden_regroup if_True) (simp add: golden_checksum golden_text)
qed


section \<open>Cross-checking the explicit arguments\<close>


lemma Address_Buf: "Address e (Buf b) net ty = construct e (Buf b) net ty"
  by (simp add: Address_def split: option.splits netarg.splits)

lemma Address_Str: "Address e (Str s) net ty = construct e (Str s) net ty"
  by (simp add: Address_def split: option.splits netarg.splits)

lemma construct_checked:
  assumes "\<not> falsy_data d"
    and "given net \<longrightarrow> Networks_get_arg (registry_of e) net \<noteq> None"
    and "truthy ty \<longrightarrow> ty = Some PayToPublicKeyHash \<or> ty = Some PayToScriptHash"
    and "classifyArguments e d net ty = Inl err"
  shows "construct e d net ty = Inl err"
  using assms by (auto simp add: construct_def)

lemma buffer_derived:
  assumes "length b = 21" "transformBuffer reg b None None = Inr i"
  shows "\<exists>n t. classifyFromVersion reg (unat (hd b)) = Some (n, t)
           \<and> info_network i = Some n \<and> info_type i = Some t"
  using assms unfolding transformBuffer_def Let_def
  by (auto simp add: given_def truthy_def split: if_splits)

lemma buffer_network_mismatch:
  assumes "length b = 21" "transformBuffer reg b None None = Inr i"
    and "given net" "Networks_get_arg reg net = Some n'" "info_network i \<noteq> Some n'"
  shows "transformBuffer reg b net ty = Inl (TypeError ''Address has mismatched network type.'')"
proof -
  obtain n t where v: "classifyFromVersion reg (unat (hd b)) = Some (n, t)"
    "info_network i = Some n" "info_type i = Some t"
    using buffer_derived [OF assms(1,2)] by blast
  show ?thesis
    using assms(1,3,4,5) v by (auto simp add: transformBuffer_def)
qed

lemma buffer_type_mismatch:
  assumes "length b = 21" "transformBuffer reg b None None = Inr i"
    and "\<not> given net \<or> Networks_get_arg reg net = info_network i"
    and "truthy ty" "ty \<noteq> info_type i"
  shows "transformBuffer reg b net ty = Inl (TypeError ''Address has mismatched type.'')"
proof -
  obtain n t where v: "classifyFromVersion reg (unat (hd b)) = Some (n, t)"
    "info_network i = Some n" "info_type i = Some t"
    using buffer_derived [OF assms(1,2)] by blast
  show ?thesis
    using assms(1,3,4,5) v by (auto simp add: transformBuffer_def)
qed

lemma string_derived:
  assumes "transformString reg s None None = Inr i"
  shows "34 \<le> length s \<and> 35 < length (trim s) \<and> decodeCashAddress reg (trim s) = Inr i
     \<and> info_network i \<noteq> None \<and> truthy (info_type i)"
  using assms unfolding transformString_def Let_def and_then_def
  by (auto simp add: given_def split: if_splits sum.splits)

lemma string_network_mismatch:
  assumes "transformString reg s None None = Inr i"
    and "given net" "Networks_get_arg reg net = Some n'"
    and "name n' \<noteq> name (the (info_network i))"
  shows "transformString reg s net ty = Inl (TypeError ''Address has mismatched network type.'')"
  using string_derived [OF assms(1)] assms(2,3,4)
  by (auto simp add: transformString_def Let_def)

lemma string_type_mismatch:
  assumes "transformString reg s None None = Inr i"
    and "\<not> given net \<and> Networks_get_arg reg net = None
       \<or> (\<exists>n'. Networks_get_arg reg net = Some n' \<and> name n' = name (the (info_network i)))"
    and "truthy ty" "ty \<noteq> info_type i"
  shows "transformString reg s net ty = Inl (TypeError ''Address has mismatched type.'')"
  using string_derived [OF assms(1)] assms(2,3,4)
  by (auto simp add: transformString_def Let_def)


lemma classify_Buf21:
  "length b = 21 \<Longrightarrow> classifyArguments e (Buf b) net ty = transformBuffer (registry_of e) b net ty"
  by (simp add: classifyArguments_def)

lemma classify_Str:
  "classifyArguments e (Str s) net ty = transformString (registry_of e) s net ty"
  by (simp add: classifyArguments_def)

lemma golden_trim:
  "trim ''bitcoincash:qqqqqqqqqqqqqqqqqqqqqqqqqqqqqqqqqqfnhks603''
     = ''bitcoincash:qqqqqqqqqqqqqqqqqqqqqqqqqqqqqqqqqqfnhks603''"
  by code_simp

lemma golden_transformString:
  "transformString bch_registry ''bitcoincash:qqqqqqqqqqqqqqqqqqqqqqqqqqqqqqqqqqfnhks603'' None None
     = Inr \<lparr>info_hashBuffer = replicate 20 0, info_network = Some livenet,
            info_type = Some PayToPublicKeyHash\<rparr>"
  unfolding transformString_def Let_def golden_trim
  by (simp add: golden_decode given_def Networks_get_arg_def truthy_def PayToPublicKeyHash_def)


section \<open>The methods allocate and leave the rest of the store\<close>


lemma length_push [simp]: "length (push r v st) = length st"
  by (simp add: push_def)

lemma take_push: "n \<le> r \<Longrightarrow> take n (push r v st) = take n st"
  by (simp add: push_def)

lemma array_at_push: "r < length st \<Longrightarrow> array_at (push r v st) r = array_at st r @ [v]"
  by (simp add: push_def array_at_def)

lemma length_push_chars [simp]: "length (push_chars r p st) = length st"
  by (induction p arbitrary: st) simp_all

lemma take_push_chars: "n \<le> r \<Longrightarrow> take n (push_chars r p st) = take n st"
  by (induction p arbitrary: st) (simp_all add: take_push)

lemma array_at_push_chars:
  "r < length st \<Longrightarrow> array_at (push_chars r p st) r = array_at st r @ protocolToArray p"
  by (induction p arbitrary: st) (simp_all add: array_at_push protocolToArray_def)

lemma length_push_digits [simp]: "length (push_digits r k c st) = length st"
  by (induction k arbitrary: c st) simp_all

lemma take_push_digits: "n \<le> r \<Longrightarrow> take n (push_digits r k c st) = take n st"
  by (induction k arbitrary: c st) (simp_all add: take_push)

lemma array_at_push_digits:
  "r < length st \<Longrightarrow> array_at (push_digits r k c st) r = array_at st r @ checksum_digits k c"
  by (induction k arbitrary: c st) (simp_all add: array_at_push)

lemma length_reverse_array [simp]: "length (reverse_array r st) = length st"
  by (simp add: reverse_array_def)

lemma take_reverse_array: "n \<le> r \<Longrightarrow> take n (reverse_array r st) = take n st"
  by (simp add: reverse_array_def)

lemma array_at_reverse_array:
  "r < length st \<Longrightarrow> array_at (reverse_array r st) r = rev (array_at st r)"
  by (simp add: reverse_array_def array_at_def)

lemma array_at_fresh: "array_at (st @ [ArrayCell []]) (length st) = []"
  by (simp add: array_at_def)

lemma protocolToArray_st_frame:
  "protocolToArray_st p st = (r, st1) \<Longrightarrow>
     take (length st) st1 = st \<and> length st \<le> length st1 \<and> array_at st1 r = protocolToArray p"
  unfolding protocolToArray_st_def alloc_def
  by (auto simp add: take_push_chars array_at_push_chars array_at_fresh)

lemma checksumToArray_st_frame:
  "checksumToArray_st c st = (r, st1) \<Longrightarrow>
     take (length st) st1 = st \<and> length st \<le> length st1 \<and> array_at st1 r = checksumToArray c"
  unfolding checksumToArray_st_def alloc_def
  by (auto simp add: take_reverse_array take_push_digits array_at_reverse_array
      array_at_push_digits array_at_fresh checksumToArray_def)

lemma frame_length: "take (length st) st1 = st \<Longrightarrow> length st \<le> length st1"
proof -
  assume "take (length st) st1 = st"
  then have "length (take (length st) st1) = length st"
    by simp
  then show ?thesis
    by simp
qed

lemma buffer_at_frame:
  "take (length st) st1 = st \<Longrightarrow> r < length st \<Longrightarrow> buffer_at st1 r = buffer_at st r"
proof -
  assume t: "take (length st) st1 = st" and r: "r < length st"
  have l: "length st \<le> length st1"
    by (rule frame_length [OF t])
  have "st1 ! r = take (length st) st1 ! r"
    using r by simp
  then have "st1 ! r = st ! r"
    using t by simp
  then show ?thesis
    using r l by (simp add: buffer_at_def)
qed

lemma take_frame_trans:
  assumes a: "take (length st) st1 = st" and b: "take (length st1) st2 = st1"
  shows "take (length st) st2 = st"
proof -
  have l: "length st \<le> length st1"
    by (rule frame_length [OF a])
  have "take (length st) (take (length st1) st2) = take (length st) st2"
    using l by (simp add: min_def)
  then show ?thesis
    using a b by simp
qed

lemma toCashAddress_st_frame:
  assumes "hashBuffer_of this < length st"
  shows "fst (toCashAddress_st this strip st) = toCashAddress (address_of st this) strip
       \<and> take (length st) (snd (toCashAddress_st this strip st)) = st"
proof -
  obtain pa st1 where p: "protocolToArray_st (protocol (network_of this)) st = (pa, st1)"
    by (cases "protocolToArray_st (protocol (network_of this)) st")
  note f1 = protocolToArray_st_frame [OF p]
  have b1: "buffer_at st1 (hashBuffer_of this) = buffer_at st (hashBuffer_of this)"
    using f1 assms by (intro buffer_at_frame) simp_all
  have frame2: "take (length st) st2 = st" if "checksumToArray_st c st1 = (ca, st2)" for c ca st2
    using checksumToArray_st_frame [OF that] f1 take_frame_trans by blast
  show ?thesis
    unfolding toCashAddress_st_def toCashAddress_def p
    using f1 b1 frame2 checksumToArray_st_frame
    by (auto simp add: address_of_def Let_def and_then_def split: sum.splits prod.splits)
qed


lemma kept_frame:
  assumes "hashBuffer_of this < length st" "take (length st) st1 = st"
  shows "kept st this st1"
  using assms buffer_at_frame [OF assms(2,1)] by (simp add: kept_def address_of_def)

lemma kept_same: "kept st this st"
  by (simp add: kept_def)

lemma toBuffer_st_frame:
  assumes "hashBuffer_of this < length st"
  shows "buffer_at (snd (toBuffer_st this st)) (fst (toBuffer_st this st))
           = toBuffer (address_of st this)
       \<and> take (length st) (snd (toBuffer_st this st)) = st
       \<and> length st \<le> fst (toBuffer_st this st)"
  using assms
  by (simp add: toBuffer_st_def toBuffer_def alloc_def Let_def buffer_at_def address_of_def
      nth_append)

lemma inspect_st_frame:
  assumes "hashBuffer_of this < length st"
  shows "take (length st) (snd (inspect_st this st)) = st"
  using toCashAddress_st_frame [OF assms, of False]
  unfolding inspect_st_def
  by (cases "toCashAddress_st this False st") (auto split: sum.splits)

lemma toCashAddress_st_length:
  "fst (toCashAddress_st this strip st) = Inr text \<Longrightarrow>
     length (snd (toCashAddress_st this strip st)) = length st + 2"
  unfolding toCashAddress_st_def protocolToArray_st_def checksumToArray_st_def alloc_def
  by (auto simp add: Let_def split: sum.splits prod.splits if_splits)

lemma push_changes: "r < length st \<Longrightarrow> push r v st \<noteq> st"
proof
  assume r: "r < length st" and e: "push r v st = st"
  have "push r v st ! r = ArrayCell (array_at st r @ [v])"
    using r by (simp add: push_def)
  then have "st ! r = ArrayCell (array_at st r @ [v])"
    using e by simp
  then show False
    using r by (cases "st ! r") (simp_all add: array_at_def)
qed

lemma push_not_kept: "r < length st \<Longrightarrow> \<not> kept st this (push r v st)"
proof
  assume r: "r < length st" and k: "kept st this (push r v st)"
  have "take (length st) (push r v st) = push r v st"
    by simp
  then have "push r v st = st"
    using k by (simp add: kept_def)
  then show False
    using push_changes [OF r] by simp
qed


section \<open>String inputs\<close>


lemma construct_Str_fails:
  assumes "length (trim s) \<le> 35 \<or> length s < 34"
  shows "\<exists>err. construct e (Str s) net ty = Inl err"
  using assms unfolding construct_def classifyArguments_def transformString_def Let_def
  by (auto simp add: falsy_data_def)

lemma transformString_fails:
  assumes "length (trim s) \<le> 35 \<or> length s < 34"
  shows "\<exists>err. transformString reg s net ty = Inl err"
  using assms unfolding transformString_def Let_def by auto

lemma fromString_fails:
  assumes "length (trim s) \<le> 35 \<or> length s < 34"
  shows "\<exists>err. fromString e s net ty = Inl err"
  using transformString_fails [OF assms, of "registry_of e" net ty]
  by (auto simp add: fromString_def)

lemma construct_Str_invalid:
  assumes "34 \<le> length s" "length (trim s) \<le> 35"
    and "given net \<longrightarrow> Networks_get_arg (registry_of e) net \<noteq> None"
    and "truthy ty \<longrightarrow> ty = Some PayToPublicKeyHash \<or> ty = Some PayToScriptHash"
  shows "construct e (Str s) net ty = Inl (Error ''Invalid Address string provided'')"
  using assms unfolding construct_def classifyArguments_def transformString_def Let_def
  by (auto simp add: falsy_data_def)

lemma fromString_invalid:
  assumes "34 \<le> length s" "length (trim s) \<le> 35"
    and "given net \<longrightarrow> Networks_get_arg (registry_of e) net \<noteq> None"
  shows "fromString e s net ty = Inl (Error ''Invalid Address string provided'')"
  using assms unfolding fromString_def transformString_def Let_def
  by auto

lemma transformString_decoded:
  assumes "transformString reg s net ty = Inr i"
  shows "34 \<le> length s \<and> 35 < length (trim s) \<and> decodeCashAddress reg (trim s) = Inr i
     \<and> info_network i \<noteq> None \<and> truthy (info_type i)"
  using assms unfolding transformString_def Let_def and_then_def
  by (auto split: if_splits sum.splits)

lemma transformString_error:
  assumes "34 \<le> length s" "35 < length (trim s)"
    and "given net \<longrightarrow> Networks_get_arg reg net \<noteq> None"
    and "decodeCashAddress reg (trim s) = Inl err"
  shows "transformString reg s net ty = Inl err"
  using assms unfolding transformString_def Let_def by auto

lemma construct_Str_decoded:
  assumes "construct e (Str s) net ty = Inr a"
  shows "34 \<le> length s \<and> 35 < length (trim s)
     \<and> decodeCashAddress (registry_of e) (trim s)
        = Inr \<lparr>info_hashBuffer = hashBuffer a, info_network = Some (network a), info_type = Some (type a)\<rparr>"
proof -
  obtain i where i: "transformString (registry_of e) s net ty = Inr i"
    and a: "a = \<lparr>hashBuffer = info_hashBuffer i,
        network = (case info_network i of Some n \<Rightarrow> n
           | None \<Rightarrow> (case Networks_get_arg (registry_of e) net of Some n \<Rightarrow> n
                        | None \<Rightarrow> defaultNetwork (registry_of e))),
        type = (if truthy (info_type i) then the (info_type i)
                else if truthy ty then the ty else PayToPublicKeyHash)\<rparr>"
    using assms unfolding construct_def classifyArguments_def and_then_def
    by (auto split: if_splits sum.splits)
  note d = transformString_decoded [OF i]
  obtain n t where nt: "info_network i = Some n" "info_type i = Some t"
    using d by (auto simp add: truthy_def split: option.splits)
  have "i = \<lparr>info_hashBuffer = hashBuffer a, info_network = Some (network a), info_type = Some (type a)\<rparr>"
    using a nt d by simp
  then show ?thesis
    using d by simp
qed

lemma decoded_hash_length:
  assumes "decodeCashAddress reg s = Inr i"
  shows "length (info_hashBuffer i) \<in> {20, 24, 28, 32, 40, 48, 56, 64}
     \<and> (info_type i = Some PayToPublicKeyHash \<or> info_type i = Some PayToScriptHash)"
proof -
  obtain payload q cb where st: "decode_version reg (toLowerCase s) q cb = Inr i"
    using decodeCashAddress_stages [OF assms] by blast
  obtain vb h where cb: "cb = vb # h"
    using st by (cases cb) (simp_all add: decode_version_def)
  have t: "vb AND 7 \<in> {0, 1, 2, 3, 4, 5, 6, 7}"
    using and7 [of vb] by auto
  have "info_hashBuffer i = map of_nat h
      \<and> (info_type i = Some PayToPublicKeyHash \<or> info_type i = Some PayToScriptHash)
      \<and> [160, 192, 224, 256, 320, 384, 448, 512] ! (vb AND 7) = length h * 8"
    using st unfolding cb decode_version_cases by (auto split: if_splits)
  then show ?thesis
    using t by auto
qed


lemma fromString_decoded:
  assumes "fromString e s net ty = Inr a"
  shows "34 \<le> length s \<and> 35 < length (trim s)
     \<and> decodeCashAddress (registry_of e) (trim s)
        = Inr \<lparr>info_hashBuffer = hashBuffer a, info_network = Some (network a), info_type = Some (type a)\<rparr>"
proof -
  obtain i where i: "transformString (registry_of e) s net ty = Inr i"
    and c: "Address e (Buf (info_hashBuffer i)) (map_option NetObject (info_network i)) (info_type i) = Inr a"
    using assms unfolding fromString_def and_then_def by (auto split: sum.splits)
  note d = transformString_decoded [OF i]
  obtain n t where nt: "info_network i = Some n" "info_type i = Some t" "t \<noteq> []"
    using d by (auto simp add: truthy_def split: option.splits)
  have len: "length (info_hashBuffer i) \<in> {20, 24, 28, 32, 40, 48, 56, 64}"
    using decoded_hash_length d by blast
  have c': "construct e (Buf (info_hashBuffer i)) (Some (NetObject n)) (Some t) = Inr a"
    using c unfolding Address_Buf nt by simp
  have l20: "length (info_hashBuffer i) = 20"
    using c' len unfolding construct_def classifyArguments_def
    by (auto split: if_splits)
  have "hashBuffer a = info_hashBuffer i \<and> network a = n \<and> type a = t"
    using c' l20 nt(3) unfolding construct_def classifyArguments_def transformHash_def
    by (auto simp add: given_def Networks_get_arg_def truthy_def split: if_splits)
  then have "i = \<lparr>info_hashBuffer = hashBuffer a, info_network = Some (network a), info_type = Some (type a)\<rparr>"
    using nt by simp
  then show ?thesis
    using d by simp
qed


section \<open>The claims\<close>

text \<open>
  C1. Round trip: for every hash of 20 bytes, each of the two types and every registered
  network, \<open>toCashAddress\<close> produces a text, and \<open>decodeCashAddress\<close> of that text returns
  exactly the same hash bytes, the same type and the same network.
\<close>

theorem cashaddr_round_trip:
  assumes "length h = 20"
    and "t = PayToPublicKeyHash \<or> t = PayToScriptHash"
    and "registered reg n"
  shows "\<exists>text. toCashAddress \<lparr>hashBuffer = h, network = n, type = t\<rparr> False = Inr text \<and>
     decodeCashAddress reg text =
       Inr \<lparr>info_hashBuffer = h, info_network = Some n, info_type = Some t\<rparr>"
proof -
  let ?a = "\<lparr>hashBuffer = h, network = n, type = t\<rparr>"
  have sz: "length (hashBuffer ?a) \<in> {20, 24, 28, 32, 40, 48, 56, 64}"
    using assms(1) by simp
  have t: "type ?a = ''pubkeyhash'' \<or> type ?a = ''scripthash''"
    using assms(2) by (simp add: PayToPublicKeyHash_def PayToScriptHash_def)
  have p: "protocol (network ?a) \<noteq> []" "CHR '':'' \<notin> set (protocol (network ?a))"
    "toLowerCase (protocol (network ?a)) = protocol (network ?a)"
    using assms(3) by (simp_all add: registered_def protocol_ok_def)
  have "Networks_get reg (protocol (network ?a)) = Some n"
    using assms(3) by (simp add: registered_def)
  then show ?thesis
    using decode_encode_prefixed [OF sz t p, of reg] by simp
qed

theorem cashaddr_round_trip_witness:
  "length (replicate 20 (0 :: byte)) = 20 \<and> registered bch_registry livenet \<and>
   (\<exists>text. toCashAddress \<lparr>hashBuffer = replicate 20 0, network = livenet,
              type = PayToPublicKeyHash\<rparr> False = Inr text \<and>
     decodeCashAddress bch_registry text =
       Inr \<lparr>info_hashBuffer = replicate 20 0, info_network = Some livenet,
            info_type = Some PayToPublicKeyHash\<rparr>)"
proof -
  have r: "registered bch_registry livenet"
    using bch_registered by simp
  have l: "length (replicate 20 (0 :: byte)) = 20"
    by simp
  show ?thesis
    using cashaddr_round_trip [OF l _ r, of PayToPublicKeyHash] l r by simp
qed

text \<open>
  C2. In the CashAddr decoder the first regrouped byte is the version byte. The last stage
  of the decoder fails unless the table entry for \<open>versionByte AND 7\<close> equals the length of
  the hash in bits; then \<open>versionByte AND 0x78\<close> must be 0 (PayToPublicKeyHash) or 8
  (PayToScriptHash), and any other value fails. Whenever \<open>decodeCashAddress\<close> succeeds, the
  regrouped bytes of its Base-32 payload without the 8 checksum symbols are a version byte
  and a hash that satisfy both conditions, and the hash and type returned are these.
\<close>

theorem version_byte_decoding:
  "decode_version reg addr p (versionByte # hash) =
     (if [160, 192, 224, 256, 320, 384, 448, 512] ! (versionByte AND 7) \<noteq> length hash * 8
      then Inl (InvalidArgument (''Invalid hash size:'' @ addr))
      else if versionByte AND 0x78 = 0
      then Inr \<lparr>info_hashBuffer = map of_nat hash, info_network = Networks_get reg p,
                info_type = Some PayToPublicKeyHash\<rparr>
      else if versionByte AND 0x78 = 8
      then Inr \<lparr>info_hashBuffer = map of_nat hash, info_network = Networks_get reg p,
                info_type = Some PayToScriptHash\<rparr>
      else Inl (Error (''Invalid address type in version byte:'' @ show_nat versionByte)))
   \<and> (\<forall>s i. decodeCashAddress reg s = Inr i \<longrightarrow>
         (\<exists>payload vb h.
            Base32_decode (toLowerCase (last (split CHR '':'' (toLowerCase s)))) = Inr payload
          \<and> convertBits (take (length payload - 8) payload) 5 8 True = Inr (vb # h)
          \<and> info_hashBuffer i = map of_nat h
          \<and> (vb AND 0x78 = 0 \<and> info_type i = Some PayToPublicKeyHash
               \<or> vb AND 0x78 = 8 \<and> info_type i = Some PayToScriptHash)
          \<and> [160, 192, 224, 256, 320, 384, 448, 512] ! (vb AND 7) = length h * 8))"
proof (intro conjI allI impI)
  show "decode_version reg addr p (versionByte # hash) =
     (if [160, 192, 224, 256, 320, 384, 448, 512] ! (versionByte AND 7) \<noteq> length hash * 8
      then Inl (InvalidArgument (''Invalid hash size:'' @ addr))
      else if versionByte AND 0x78 = 0
      then Inr \<lparr>info_hashBuffer = map of_nat hash, info_network = Networks_get reg p,
                info_type = Some PayToPublicKeyHash\<rparr>
      else if versionByte AND 0x78 = 8
      then Inr \<lparr>info_hashBuffer = map of_nat hash, info_network = Networks_get reg p,
                info_type = Some PayToScriptHash\<rparr>
      else Inl (Error (''Invalid address type in version byte:'' @ show_nat versionByte)))"
    by (rule decode_version_cases)
next
  fix s i
  assume "decodeCashAddress reg s = Inr i"
  then obtain payload q cb where st:
    "Base32_decode (toLowerCase (last (split CHR '':'' (toLowerCase s)))) = Inr payload"
    "convertBits (take (length payload - 8) payload) 5 8 True = Inr cb"
    "decode_version reg (toLowerCase s) q cb = Inr i"
    using decodeCashAddress_stages by blast
  obtain vb h where cb: "cb = vb # h"
    using st(3) by (cases cb) (simp_all add: decode_version_def)
  have "info_hashBuffer i = map of_nat h
      \<and> (vb AND 0x78 = 0 \<and> info_type i = Some PayToPublicKeyHash
           \<or> vb AND 0x78 = 8 \<and> info_type i = Some PayToScriptHash)
      \<and> [160, 192, 224, 256, 320, 384, 448, 512] ! (vb AND 7) = length h * 8"
    using st(3) unfolding cb decode_version_cases
    by (auto split: if_splits)
  then show "\<exists>payload vb h.
            Base32_decode (toLowerCase (last (split CHR '':'' (toLowerCase s)))) = Inr payload
          \<and> convertBits (take (length payload - 8) payload) 5 8 True = Inr (vb # h)
          \<and> info_hashBuffer i = map of_nat h
          \<and> (vb AND 0x78 = 0 \<and> info_type i = Some PayToPublicKeyHash
               \<or> vb AND 0x78 = 8 \<and> info_type i = Some PayToScriptHash)
          \<and> [160, 192, 224, 256, 320, 384, 448, 512] ! (vb AND 7) = length h * 8"
    using st(1,2) cb by blast
qed

theorem version_byte_decoding_witness:
  "decodeCashAddress bch_registry ''bitcoincash:qqqqqqqqqqqqqqqqqqqqqqqqqqqqqqqqqqfnhks603''
     = Inr \<lparr>info_hashBuffer = replicate 20 0, info_network = Some livenet,
            info_type = Some PayToPublicKeyHash\<rparr>
   \<and> (\<exists>payload vb h.
          Base32_decode (toLowerCase (last (split CHR '':''
            (toLowerCase ''bitcoincash:qqqqqqqqqqqqqqqqqqqqqqqqqqqqqqqqqqfnhks603'')))) = Inr payload
        \<and> convertBits (take (length payload - 8) payload) 5 8 True = Inr (vb # h)
        \<and> replicate 20 (0 :: byte) = map of_nat h
        \<and> (vb AND 0x78 = 0 \<or> vb AND 0x78 = 8)
        \<and> [160, 192, 224, 256, 320, 384, 448, 512] ! (vb AND 7) = length h * 8)"
  using version_byte_decoding [of bch_registry "[]" "[]" 0 "[]"] golden_decode
  by fastforce

text \<open>
  C3. When the text has no prefix part, the decoder tries the prefixes of livenet, testnet
  and regtest in this order and accepts the first for which the checksum is zero; if there
  is none it fails with the invalid-checksum error. Consequently, for the encoding of an
  address on a registered network whose prefix can be inferred, decoding the bare payload
  gives the same result as decoding the text with the prefix: the hash, the network and
  the type of the address.
\<close>

theorem prefix_inference:
  assumes tr: "tried reg = [Some l, Some t', Some r]"
    and ne: "protocol l \<noteq> []" "protocol t' \<noteq> []" "protocol r \<noteq> []"
    and len: "length h = 20"
    and ty: "t = PayToPublicKeyHash \<or> t = PayToScriptHash"
    and rg: "registered reg n"
    and inf: "inferable reg n"
  shows "(\<forall>s payload. hasSingleCase s \<and> CHR '':'' \<notin> set s
            \<and> Base32_decode (toLowerCase s) = Inr payload \<longrightarrow>
          decodeCashAddress reg s =
            (case find (\<lambda>m. validChecksum (protocol m) payload) [l, t', r] of
               None \<Rightarrow> Inl (InvalidArgument (''Invalid checksum:'' @ toLowerCase s))
             | Some m \<Rightarrow>
                 and_then (convertBits (take (length payload - 8) payload) 5 8 True)
                   (decode_version reg (toLowerCase s) (protocol m))))
       \<and> (\<exists>text. toCashAddress \<lparr>hashBuffer = h, network = n, type = t\<rparr> True = Inr text
            \<and> toCashAddress \<lparr>hashBuffer = h, network = n, type = t\<rparr> False
                 = Inr (protocol n @ '':'' @ text)
            \<and> decodeCashAddress reg text = decodeCashAddress reg (protocol n @ '':'' @ text)
            \<and> decodeCashAddress reg text =
                 Inr \<lparr>info_hashBuffer = h, info_network = Some n, info_type = Some t\<rparr>)"
proof
  show "\<forall>s payload. hasSingleCase s \<and> CHR '':'' \<notin> set s
            \<and> Base32_decode (toLowerCase s) = Inr payload \<longrightarrow>
          decodeCashAddress reg s =
            (case find (\<lambda>m. validChecksum (protocol m) payload) [l, t', r] of
               None \<Rightarrow> Inl (InvalidArgument (''Invalid checksum:'' @ toLowerCase s))
             | Some m \<Rightarrow>
                 and_then (convertBits (take (length payload - 8) payload) 5 8 True)
                   (decode_version reg (toLowerCase s) (protocol m)))"
    using decode_bare_any [OF tr ne] by blast
next
  let ?a = "\<lparr>hashBuffer = h, network = n, type = t\<rparr>"
  have sz: "length (hashBuffer ?a) \<in> {20, 24, 28, 32, 40, 48, 56, 64}"
    using len by simp
  have t: "type ?a = ''pubkeyhash'' \<or> type ?a = ''scripthash''"
    using ty by (simp add: PayToPublicKeyHash_def PayToScriptHash_def)
  have p: "protocol (network ?a) \<noteq> []" "CHR '':'' \<notin> set (protocol (network ?a))"
    "toLowerCase (protocol (network ?a)) = protocol (network ?a)"
    using rg by (simp_all add: registered_def protocol_ok_def)
  have inf': "inferable reg (network ?a)"
    using inf by simp
  have n: "Networks_get reg (protocol n) = Some n"
    using rg by (simp add: registered_def)
  obtain btext where b: "toCashAddress ?a True = Inr btext"
    "toCashAddress ?a False = Inr (protocol n @ CHR '':'' # btext)"
    "decodeCashAddress reg btext =
       Inr \<lparr>info_hashBuffer = h, info_network = Some n, info_type = Some t\<rparr>"
    using decode_encode_bare [OF sz t p(1) inf'] n by auto
  obtain ptext where f: "toCashAddress ?a False = Inr ptext"
    "decodeCashAddress reg ptext =
       Inr \<lparr>info_hashBuffer = h, info_network = Some n, info_type = Some t\<rparr>"
    using decode_encode_prefixed [OF sz t p, of reg] n by auto
  have "ptext = protocol n @ CHR '':'' # btext"
    using b(2) f(1) by simp
  then have "decodeCashAddress reg btext = decodeCashAddress reg (protocol n @ '':'' @ btext)"
    using b(3) f(2) by simp
  then show "\<exists>text. toCashAddress ?a True = Inr text
            \<and> toCashAddress ?a False = Inr (protocol n @ '':'' @ text)
            \<and> decodeCashAddress reg text = decodeCashAddress reg (protocol n @ '':'' @ text)
            \<and> decodeCashAddress reg text =
                 Inr \<lparr>info_hashBuffer = h, info_network = Some n, info_type = Some t\<rparr>"
    using b by auto
qed

theorem prefix_inference_witness:
  "tried bch_registry = [Some livenet, Some testnet, Some regtest]
   \<and> protocol livenet \<noteq> [] \<and> protocol testnet \<noteq> [] \<and> protocol regtest \<noteq> []
   \<and> length (replicate 20 (7 :: byte)) = 20
   \<and> registered bch_registry regtest \<and> inferable bch_registry regtest
   \<and> Base32_decode (toLowerCase ''qq'') = Inr [0, 0]
   \<and> decodeCashAddress bch_registry ''qq'' = Inl (InvalidArgument ''Invalid checksum:qq'')
   \<and> (\<exists>text. toCashAddress \<lparr>hashBuffer = replicate 20 7, network = regtest,
                  type = PayToScriptHash\<rparr> True = Inr text
          \<and> decodeCashAddress bch_registry text
               = decodeCashAddress bch_registry (protocol regtest @ '':'' @ text)
          \<and> decodeCashAddress bch_registry text =
               Inr \<lparr>info_hashBuffer = replicate 20 7, info_network = Some regtest,
                    info_type = Some PayToScriptHash\<rparr>)"
proof -
  have ne: "protocol livenet \<noteq> []" "protocol testnet \<noteq> []" "protocol regtest \<noteq> []"
    by (simp_all add: bch_protocols)
  have l: "length (replicate 20 (7 :: byte)) = 20"
    by simp
  have r: "registered bch_registry regtest"
    using bch_registered by simp
  have i: "inferable bch_registry regtest"
    using bch_inferable by simp
  have d: "Base32_decode (toLowerCase ''qq'') = Inr [0, 0]"
    by code_simp
  have h: "hasSingleCase ''qq''" "CHR '':'' \<notin> set ''qq''"
    by (simp_all add: hasSingleCase_def toLowerCase_def lower_char_def)
  have v: "find (\<lambda>m. validChecksum (protocol m) [0, 0]) [livenet, testnet, regtest] = None"
    by code_simp
  have lo: "toLowerCase ''qq'' = ''qq''"
    by (simp add: toLowerCase_def lower_char_def)
  note w = prefix_inference [OF bch_tried ne l _ r i, of PayToScriptHash]
  have "decodeCashAddress bch_registry ''qq'' =
      (case find (\<lambda>m. validChecksum (protocol m) [0, 0]) [livenet, testnet, regtest] of
         None \<Rightarrow> Inl (InvalidArgument (''Invalid checksum:'' @ toLowerCase ''qq''))
       | Some m \<Rightarrow>
           and_then (convertBits (take (length [0, 0 :: nat] - 8) [0, 0]) 5 8 True)
             (decode_version bch_registry (toLowerCase ''qq'') (protocol m)))"
    using w [THEN conjunct1, rule_format, of "''qq''" "[0, 0]"] h d by blast
  then have q: "decodeCashAddress bch_registry ''qq'' = Inl (InvalidArgument ''Invalid checksum:qq'')"
    by (simp only: v lo option.case) simp
  have "\<exists>text. toCashAddress \<lparr>hashBuffer = replicate 20 7, network = regtest,
                  type = PayToScriptHash\<rparr> True = Inr text
          \<and> decodeCashAddress bch_registry text
               = decodeCashAddress bch_registry (protocol regtest @ '':'' @ text)
          \<and> decodeCashAddress bch_registry text =
               Inr \<lparr>info_hashBuffer = replicate 20 7, info_network = Some regtest,
                    info_type = Some PayToScriptHash\<rparr>"
    using w [THEN conjunct2] by blast
  then show ?thesis
    using bch_tried ne l r i d q by blast
qed

text \<open>
  C8. Case invariance: for every text \<open>s\<close> that \<open>toCashAddress\<close> produces for an address on
  a registered network with a prefix of ASCII characters (with the prefix, or bare when
  the prefix can be inferred), \<open>s\<close> has an upper-case form, decoding the upper-case form
  equals decoding \<open>s\<close>, and both succeed with the hash, the network and the type of the
  address. Every string that is neither its own lower-case form nor its own upper-case
  form is rejected as mixed case, whatever its checksum and its other characters are.
\<close>

theorem case_invariance:
  assumes len: "length h = 20"
    and ty: "t = PayToPublicKeyHash \<or> t = PayToScriptHash"
    and rg: "registered reg n"
    and asc: "list_all ascii (protocol n)"
    and inf: "strip \<longrightarrow> inferable reg n"
    and enc: "toCashAddress \<lparr>hashBuffer = h, network = n, type = t\<rparr> strip = Inr s"
  shows "(\<exists>u. char_codes u = toUpperCase s)
       \<and> (\<forall>u. char_codes u = toUpperCase s \<longrightarrow> decodeCashAddress reg u = decodeCashAddress reg s)
       \<and> decodeCashAddress reg s =
            Inr \<lparr>info_hashBuffer = h, info_network = Some n, info_type = Some t\<rparr>
       \<and> (\<forall>m. m \<noteq> toLowerCase m \<and> char_codes m \<noteq> toUpperCase m \<longrightarrow>
              decodeCashAddress reg m = Inl (InvalidArgument ''Mixed case''))"
proof -
  let ?a = "\<lparr>hashBuffer = h, network = n, type = t\<rparr>"
  have sz: "length (hashBuffer ?a) \<in> {20, 24, 28, 32, 40, 48, 56, 64}"
    using len by simp
  have t: "type ?a = ''pubkeyhash'' \<or> type ?a = ''scripthash''"
    using ty by (simp add: PayToPublicKeyHash_def PayToScriptHash_def)
  have p: "protocol (network ?a) \<noteq> []" "CHR '':'' \<notin> set (protocol (network ?a))"
    "toLowerCase (protocol (network ?a)) = protocol (network ?a)"
    using rg by (simp_all add: registered_def protocol_ok_def)
  have pa: "list_all ascii (protocol (network ?a))"
    using asc by simp
  have n: "Networks_get reg (protocol n) = Some n"
    using rg by (simp add: registered_def)
  have low: "toLowerCase s = s"
    by (rule encoded_lower [OF sz t p(3) enc])
  have sa: "list_all ascii s"
    by (rule encoded_ascii [OF sz t pa enc])
  have ex: "\<exists>u. char_codes u = toUpperCase s"
    using toUpperCase_ascii [OF sa] by metis
  have up: "\<forall>u. char_codes u = toUpperCase s \<longrightarrow> decodeCashAddress reg u = decodeCashAddress reg s"
    using decode_upper [OF low sa] by blast
  have ok: "decodeCashAddress reg s =
            Inr \<lparr>info_hashBuffer = h, info_network = Some n, info_type = Some t\<rparr>"
  proof (cases strip)
    case True
    then have "inferable reg (network ?a)" using inf by simp
    then show ?thesis
      using decode_encode_bare [OF sz t p(1)] enc True n by auto
  next
    case False
    then show ?thesis
      using decode_encode_prefixed [OF sz t p, of reg] enc n by auto
  qed
  show ?thesis
    using ex up ok mixed_case by blast
qed

theorem case_invariance_witness:
  "length (replicate 20 (0 :: byte)) = 20 \<and> registered bch_registry livenet
   \<and> list_all ascii (protocol livenet)
   \<and> toCashAddress \<lparr>hashBuffer = replicate 20 0, network = livenet, type = PayToPublicKeyHash\<rparr> False
        = Inr ''bitcoincash:qqqqqqqqqqqqqqqqqqqqqqqqqqqqqqqqqqfnhks603''
   \<and> char_codes ''BITCOINCASH:QQQQQQQQQQQQQQQQQQQQQQQQQQQQQQQQQQFNHKS603''
        = toUpperCase ''bitcoincash:qqqqqqqqqqqqqqqqqqqqqqqqqqqqqqqqqqfnhks603''
   \<and> decodeCashAddress bch_registry ''BITCOINCASH:QQQQQQQQQQQQQQQQQQQQQQQQQQQQQQQQQQFNHKS603''
        = Inr \<lparr>info_hashBuffer = replicate 20 0, info_network = Some livenet,
               info_type = Some PayToPublicKeyHash\<rparr>
   \<and> ''qQ'' \<noteq> toLowerCase ''qQ'' \<and> char_codes ''qQ'' \<noteq> toUpperCase ''qQ''
   \<and> decodeCashAddress bch_registry ''qQ'' = Inl (InvalidArgument ''Mixed case'')
   \<and> [CHR ''q'', CHR 0xC9] \<noteq> toLowerCase [CHR ''q'', CHR 0xC9]
   \<and> char_codes [CHR ''q'', CHR 0xC9] \<noteq> toUpperCase [CHR ''q'', CHR 0xC9]
   \<and> decodeCashAddress bch_registry [CHR ''q'', CHR 0xC9] = Inl (InvalidArgument ''Mixed case'')"
proof -
  have r: "registered bch_registry livenet"
    using bch_registered by simp
  have l: "length (replicate 20 (0 :: byte)) = 20"
    by simp
  have a: "list_all ascii (protocol livenet)"
    by code_simp
  have u: "char_codes ''BITCOINCASH:QQQQQQQQQQQQQQQQQQQQQQQQQQQQQQQQQQFNHKS603''
      = toUpperCase ''bitcoincash:qqqqqqqqqqqqqqqqqqqqqqqqqqqqqqqqqqfnhks603''"
    by code_simp
  have m: "''qQ'' \<noteq> toLowerCase ''qQ''" "char_codes ''qQ'' \<noteq> toUpperCase ''qQ''"
    "[CHR ''q'', CHR 0xC9] \<noteq> toLowerCase [CHR ''q'', CHR 0xC9]"
    "char_codes [CHR ''q'', CHR 0xC9] \<noteq> toUpperCase [CHR ''q'', CHR 0xC9]"
    by code_simp+
  note w = case_invariance [OF l _ r a _ golden_encode]
  have d: "decodeCashAddress bch_registry ''BITCOINCASH:QQQQQQQQQQQQQQQQQQQQQQQQQQQQQQQQQQFNHKS603''
        = Inr \<lparr>info_hashBuffer = replicate 20 0, info_network = Some livenet,
               info_type = Some PayToPublicKeyHash\<rparr>"
    using w u by simp
  have x: "decodeCashAddress bch_registry ''qQ'' = Inl (InvalidArgument ''Mixed case'')"
    "decodeCashAddress bch_registry [CHR ''q'', CHR 0xC9] = Inl (InvalidArgument ''Mixed case'')"
    using w m by simp_all
  show ?thesis
    using d x m u l r a golden_encode by simp
qed

text \<open>
  C7 (as amended). When the 21-byte binary form is decoded, the version byte is looked up
  in the pubkeyhash prefixes of all registered networks and then in their scripthash
  prefixes; a successful decode returns the remaining 20 bytes with the network and the
  type of the first match. If the version byte matches no registered prefix, decoding
  fails with the errors of a mismatch: \<open>Unknown network\<close> if a network was supplied that
  is unknown, else \<open>Address has mismatched network type.\<close> if a network was supplied, else
  \<open>Address has mismatched type.\<close> The counterexample shows that the error for an
  unregistered version byte is the very error of a type mismatch.
\<close>

theorem version_byte_lookup:
  assumes "length buffer = 21"
  shows "(\<forall>i. transformBuffer reg buffer net ty = Inr i \<longrightarrow>
           (\<exists>n\<in>set (networks reg). info_hashBuffer i = tl buffer \<and> info_network i = Some n \<and>
              (info_type i = Some PayToPublicKeyHash
                 \<and> Networks_get_key reg (unat (hd buffer)) prefix_pubkeyhash = Some n
                 \<and> prefix_pubkeyhash n = unat (hd buffer)
               \<or> info_type i = Some PayToScriptHash
                 \<and> Networks_get_key reg (unat (hd buffer)) prefix_pubkeyhash = None
                 \<and> Networks_get_key reg (unat (hd buffer)) prefix_scripthash = Some n
                 \<and> prefix_scripthash n = unat (hd buffer))))
       \<and> ((\<forall>n\<in>set (networks reg). prefix_pubkeyhash n \<noteq> unat (hd buffer)
                \<and> prefix_scripthash n \<noteq> unat (hd buffer)) \<longrightarrow>
            transformBuffer reg buffer net ty =
              (if given net \<and> Networks_get_arg reg net = None then Inl (TypeError ''Unknown network'')
               else if given net then Inl (TypeError ''Address has mismatched network type.'')
               else Inl (TypeError ''Address has mismatched type.'')))"
proof (intro conjI allI impI)
  fix i
  assume ok: "transformBuffer reg buffer net ty = Inr i"
  let ?v = "classifyFromVersion reg (unat (hd buffer))"
  from ok have some: "?v \<noteq> None"
    unfolding transformBuffer_def Let_def using assms by (auto split: if_splits)
  then obtain n t where v: "?v = Some (n, t)"
    by (cases ?v) auto
  have i: "info_hashBuffer i = tl buffer" "info_network i = Some n" "info_type i = Some t"
    using ok v assms unfolding transformBuffer_def Let_def by (auto split: if_splits)
  show "\<exists>n\<in>set (networks reg). info_hashBuffer i = tl buffer \<and> info_network i = Some n \<and>
              (info_type i = Some PayToPublicKeyHash
                 \<and> Networks_get_key reg (unat (hd buffer)) prefix_pubkeyhash = Some n
                 \<and> prefix_pubkeyhash n = unat (hd buffer)
               \<or> info_type i = Some PayToScriptHash
                 \<and> Networks_get_key reg (unat (hd buffer)) prefix_pubkeyhash = None
                 \<and> Networks_get_key reg (unat (hd buffer)) prefix_scripthash = Some n
                 \<and> prefix_scripthash n = unat (hd buffer))"
    using classifyFromVersion_Some [OF v] i by blast
next
  assume "\<forall>n\<in>set (networks reg). prefix_pubkeyhash n \<noteq> unat (hd buffer)
                \<and> prefix_scripthash n \<noteq> unat (hd buffer)"
  then have "classifyFromVersion reg (unat (hd buffer)) = None"
    by (rule classifyFromVersion_None)
  then show "transformBuffer reg buffer net ty =
              (if given net \<and> Networks_get_arg reg net = None then Inl (TypeError ''Unknown network'')
               else if given net then Inl (TypeError ''Address has mismatched network type.'')
               else Inl (TypeError ''Address has mismatched type.''))"
    using assms by (simp add: transformBuffer_def)
qed

theorem unknown_version_byte_counterexample:
  "classifyFromVersion bch_registry 0xFF = None
   \<and> transformBuffer bch_registry (0xFF # replicate 20 0) None None
        = Inl (TypeError ''Address has mismatched type.'')
   \<and> classifyFromVersion bch_registry 0x00 = Some (livenet, PayToPublicKeyHash)
   \<and> transformBuffer bch_registry (0x00 # replicate 20 0) None (Some PayToScriptHash)
        = Inl (TypeError ''Address has mismatched type.'')"
  by code_simp

theorem version_byte_lookup_witness:
  "length (0x6f # replicate 20 (0 :: byte)) = 21
   \<and> transformBuffer bch_registry (0x6f # replicate 20 0) None None
        = Inr \<lparr>info_hashBuffer = replicate 20 0, info_network = Some testnet,
               info_type = Some PayToPublicKeyHash\<rparr>
   \<and> Networks_get_key bch_registry 0x6f prefix_pubkeyhash = Some testnet
   \<and> list_all (\<lambda>n. prefix_pubkeyhash n \<noteq> 0xFF \<and> prefix_scripthash n \<noteq> 0xFF)
         (networks bch_registry)
   \<and> transformBuffer bch_registry (0xFF # replicate 20 0) (Some (NetName ''bch'')) None
        = Inl (TypeError ''Address has mismatched network type.'')"
proof -
  have l: "length (0x6f # replicate 20 (0 :: byte)) = 21" "length (0xFF # replicate 20 (0 :: byte)) = 21"
    by simp_all
  have t: "transformBuffer bch_registry (0x6f # replicate 20 0) None None
        = Inr \<lparr>info_hashBuffer = replicate 20 0, info_network = Some testnet,
               info_type = Some PayToPublicKeyHash\<rparr>"
    by code_simp
  have u: "\<forall>n\<in>set (networks bch_registry). prefix_pubkeyhash n \<noteq> unat (hd (0xFF # replicate 20 (0 :: byte)))
                \<and> prefix_scripthash n \<noteq> unat (hd (0xFF # replicate 20 (0 :: byte)))"
    by (simp add: bch_registry_def livenet_def testnet_def regtest_def)
  have g: "given (Some (NetName ''bch''))" "Networks_get_arg bch_registry (Some (NetName ''bch'')) \<noteq> None"
    by code_simp+
  have k: "Networks_get_key bch_registry 0x6f prefix_pubkeyhash = Some testnet"
    by code_simp
  note w1 = version_byte_lookup [OF l(1), of bch_registry None None, THEN conjunct1, THEN spec, THEN mp, OF t]
  note w2 = version_byte_lookup [OF l(2), of bch_registry "Some (NetName ''bch'')" None,
      THEN conjunct2, THEN mp, OF u]
  have v: "list_all (\<lambda>n. prefix_pubkeyhash n \<noteq> 0xFF \<and> prefix_scripthash n \<noteq> 0xFF)
         (networks bch_registry)"
    by (simp add: bch_registry_def livenet_def testnet_def regtest_def)
  show ?thesis
    using w1 w2 l t g k v by simp
qed

text \<open>
  C10. The constructor is the identity on addresses: for an \<open>Address\<close> instance as first
  argument it returns that instance, whatever the network and type arguments are.
\<close>

theorem constructor_returns_instance:
  "Address e (Instance a) net ty = Inr a"
  by (simp add: Address_def)

theorem constructor_returns_instance_witness:
  "Address bch_env
     (Instance \<lparr>hashBuffer = replicate 20 1, network = testnet, type = PayToScriptHash\<rparr>)
     (Some (NetName ''no such network'')) (Some ''no such type'')
   = Inr \<lparr>hashBuffer = replicate 20 1, network = testnet, type = PayToScriptHash\<rparr>"
  using constructor_returns_instance
    [of bch_env "\<lparr>hashBuffer = replicate 20 1, network = testnet, type = PayToScriptHash\<rparr>"
      "Some (NetName ''no such network'')" "Some ''no such type''"]
  by simp

text \<open>
  C9. No method changes an address. The three properties of an instance are defined
  immutable, so what a method could change is the contents of the Buffer that \<open>hashBuffer\<close>
  refers to. For an instance whose hash buffer is in the store, each of \<open>toBuffer\<close>,
  \<open>toCashAddress\<close> (which is \<open>toString\<close>), \<open>toObject\<close>, \<open>isPayToPublicKeyHash\<close>,
  \<open>isPayToScriptHash\<close> and \<open>inspect\<close> keeps every Buffer and array that was in the store
  before the call (what it pushes into, reverses or fills it has allocated itself), and
  the instance stands for the same hash buffer, network and type after the call. The
  Buffer that \<open>toBuffer\<close> returns is new, and the values returned are those of the
  functions of the address.
\<close>

theorem observers_keep_address:
  assumes "hashBuffer_of this < length st"
  shows "kept st this (snd (toBuffer_st this st))
       \<and> kept st this (snd (toCashAddress_st this stripProtocol st))
       \<and> kept st this (snd (toObject_st this st))
       \<and> kept st this (snd (isPayToPublicKeyHash_st this st))
       \<and> kept st this (snd (isPayToScriptHash_st this st))
       \<and> kept st this (snd (inspect_st this st))
       \<and> length st \<le> fst (toBuffer_st this st)
       \<and> buffer_at (snd (toBuffer_st this st)) (fst (toBuffer_st this st))
            = toBuffer (address_of st this)
       \<and> fst (toCashAddress_st this stripProtocol st)
            = toCashAddress (address_of st this) stripProtocol
       \<and> fst (toObject_st this st) = toObject (address_of st this)
       \<and> fst (isPayToPublicKeyHash_st this st) = isPayToPublicKeyHash (address_of st this)
       \<and> fst (isPayToScriptHash_st this st) = isPayToScriptHash (address_of st this)"
proof -
  note b = toBuffer_st_frame [OF assms]
  note c = toCashAddress_st_frame [OF assms, of stripProtocol]
  note i = inspect_st_frame [OF assms]
  have k1: "kept st this (snd (toBuffer_st this st))"
    using b by (intro kept_frame [OF assms]) simp
  have k2: "kept st this (snd (toCashAddress_st this stripProtocol st))"
    using c by (intro kept_frame [OF assms]) simp
  have k3: "kept st this (snd (inspect_st this st))"
    using i by (intro kept_frame [OF assms]) simp
  have k4: "kept st this (snd (toObject_st this st))"
    "kept st this (snd (isPayToPublicKeyHash_st this st))"
    "kept st this (snd (isPayToScriptHash_st this st))"
    by (simp_all add: toObject_st_def isPayToPublicKeyHash_st_def isPayToScriptHash_st_def
        kept_same)
  have v: "fst (toObject_st this st) = toObject (address_of st this)"
    "fst (isPayToPublicKeyHash_st this st) = isPayToPublicKeyHash (address_of st this)"
    "fst (isPayToScriptHash_st this st) = isPayToScriptHash (address_of st this)"
    by (simp_all add: toObject_st_def toObject_def isPayToPublicKeyHash_st_def
        isPayToPublicKeyHash_def isPayToScriptHash_st_def isPayToScriptHash_def address_of_def)
  show ?thesis
    using k1 k2 k3 k4 v b c by simp
qed

theorem observers_keep_address_witness:
  "hashBuffer_of \<lparr>hashBuffer_of = 0, network_of = livenet, type_of = PayToPublicKeyHash\<rparr>
      < length [BufferCell (replicate 20 0)]
   \<and> address_of [BufferCell (replicate 20 0)]
        \<lparr>hashBuffer_of = 0, network_of = livenet, type_of = PayToPublicKeyHash\<rparr>
      = \<lparr>hashBuffer = replicate 20 0, network = livenet, type = PayToPublicKeyHash\<rparr>
   \<and> fst (toCashAddress_st \<lparr>hashBuffer_of = 0, network_of = livenet, type_of = PayToPublicKeyHash\<rparr>
            False [BufferCell (replicate 20 0)])
      = Inr ''bitcoincash:qqqqqqqqqqqqqqqqqqqqqqqqqqqqqqqqqqfnhks603''
   \<and> address_of
        (snd (toCashAddress_st \<lparr>hashBuffer_of = 0, network_of = livenet, type_of = PayToPublicKeyHash\<rparr>
            False [BufferCell (replicate 20 0)]))
        \<lparr>hashBuffer_of = 0, network_of = livenet, type_of = PayToPublicKeyHash\<rparr>
      = \<lparr>hashBuffer = replicate 20 0, network = livenet, type = PayToPublicKeyHash\<rparr>
   \<and> take 1 (snd (toCashAddress_st \<lparr>hashBuffer_of = 0, network_of = livenet, type_of = PayToPublicKeyHash\<rparr>
            False [BufferCell (replicate 20 0)]))
      = [BufferCell (replicate 20 0)]
   \<and> length (snd (toCashAddress_st \<lparr>hashBuffer_of = 0, network_of = livenet, type_of = PayToPublicKeyHash\<rparr>
            False [BufferCell (replicate 20 0)])) = 3
   \<and> snd (toBuffer_st \<lparr>hashBuffer_of = 0, network_of = livenet, type_of = PayToPublicKeyHash\<rparr>
            [BufferCell (replicate 20 0)])
      = [BufferCell (replicate 20 0), BufferCell [0], BufferCell (replicate 21 0)]"
proof -
  let ?obj = "\<lparr>hashBuffer_of = 0, network_of = livenet, type_of = PayToPublicKeyHash\<rparr>"
  let ?st = "[BufferCell (replicate 20 0)]"
  have h: "hashBuffer_of ?obj < length ?st"
    by simp
  have a: "address_of ?st ?obj
      = \<lparr>hashBuffer = replicate 20 0, network = livenet, type = PayToPublicKeyHash\<rparr>"
    by (simp add: address_of_def buffer_at_def)
  have b: "snd (toBuffer_st ?obj ?st)
      = [BufferCell (replicate 20 0), BufferCell [0], BufferCell (replicate 21 0)]"
    by code_simp
  note w = observers_keep_address [OF h, of False]
  have t: "fst (toCashAddress_st ?obj False ?st)
      = Inr ''bitcoincash:qqqqqqqqqqqqqqqqqqqqqqqqqqqqqqqqqqfnhks603''"
    using w a golden_encode by simp
  have l: "length (snd (toCashAddress_st ?obj False ?st)) = 3"
    using toCashAddress_st_length [OF t] by simp
  show ?thesis
    using w a l b t by (simp add: kept_def)
qed

text \<open>
  C6 (as amended). For every string input to address construction, by the constructor or
  by \<open>fromString\<close>: strings shorter than 34 characters fail. Strings of at least 34
  characters whose length after trimming is at most 35, among them all strings of length 34
  and 35, always fail and are never decoded by a legacy fallback; they fail with the
  invalid-address-string error when the explicit arguments pass the checks that come
  first (a given network is known and, for the constructor, a given type is one of the
  two type strings). Strings of at least 34 characters whose length after trimming is
  greater than 35 are decoded as CashAddr text when the explicit arguments pass these
  checks: an error of \<open>decodeCashAddress\<close> on the trimmed string is the error of the
  construction. Every address that is constructed from a string has the hash, the network
  and the type that \<open>decodeCashAddress\<close> returns for the trimmed string, which is longer
  than 35. The counterexample has a string of 36 characters that is not decoded as
  CashAddr text, and a string of 34 characters that fails with another error than the
  invalid-address-string error.
\<close>

theorem string_input_lengths:
  "(length s < 34 \<longrightarrow>
       (\<exists>err. Address e (Str s) net ty = Inl err) \<and> (\<exists>err. fromString e s net ty = Inl err))
   \<and> (34 \<le> length s \<and> length (trim s) \<le> 35 \<longrightarrow>
       (\<exists>err. Address e (Str s) net ty = Inl err) \<and> (\<exists>err. fromString e s net ty = Inl err)
     \<and> ((given net \<longrightarrow> Networks_get_arg (registry_of e) net \<noteq> None) \<longrightarrow>
          fromString e s net ty = Inl (Error ''Invalid Address string provided'')
        \<and> ((truthy ty \<longrightarrow> ty = Some PayToPublicKeyHash \<or> ty = Some PayToScriptHash) \<longrightarrow>
             Address e (Str s) net ty = Inl (Error ''Invalid Address string provided''))))
   \<and> (34 \<le> length s \<and> 35 < length (trim s)
        \<and> (given net \<longrightarrow> Networks_get_arg (registry_of e) net \<noteq> None) \<longrightarrow>
       (\<forall>err. decodeCashAddress (registry_of e) (trim s) = Inl err \<longrightarrow>
          fromString e s net ty = Inl err
        \<and> ((truthy ty \<longrightarrow> ty = Some PayToPublicKeyHash \<or> ty = Some PayToScriptHash) \<longrightarrow>
             Address e (Str s) net ty = Inl err)))
   \<and> (\<forall>a. Address e (Str s) net ty = Inr a \<or> fromString e s net ty = Inr a \<longrightarrow>
         34 \<le> length s \<and> 35 < length (trim s)
       \<and> decodeCashAddress (registry_of e) (trim s)
          = Inr \<lparr>info_hashBuffer = hashBuffer a, info_network = Some (network a),
                 info_type = Some (type a)\<rparr>)"
proof (intro conjI impI allI)
  assume "length s < 34"
  then show "\<exists>err. Address e (Str s) net ty = Inl err"
    unfolding Address_Str by (intro construct_Str_fails) simp
next
  assume "length s < 34"
  then show "\<exists>err. fromString e s net ty = Inl err"
    by (intro fromString_fails) simp
next
  assume "34 \<le> length s \<and> length (trim s) \<le> 35"
  then show "\<exists>err. Address e (Str s) net ty = Inl err"
    unfolding Address_Str by (intro construct_Str_fails) simp
next
  assume "34 \<le> length s \<and> length (trim s) \<le> 35"
  then show "\<exists>err. fromString e s net ty = Inl err"
    by (intro fromString_fails) simp
next
  assume "34 \<le> length s \<and> length (trim s) \<le> 35"
    and "given net \<longrightarrow> Networks_get_arg (registry_of e) net \<noteq> None"
  then show "fromString e s net ty = Inl (Error ''Invalid Address string provided'')"
    by (intro fromString_invalid) simp_all
next
  assume "34 \<le> length s \<and> length (trim s) \<le> 35"
    and "given net \<longrightarrow> Networks_get_arg (registry_of e) net \<noteq> None"
    and "truthy ty \<longrightarrow> ty = Some PayToPublicKeyHash \<or> ty = Some PayToScriptHash"
  then show "Address e (Str s) net ty = Inl (Error ''Invalid Address string provided'')"
    unfolding Address_Str by (intro construct_Str_invalid) simp_all
next
  fix err
  assume a: "34 \<le> length s \<and> 35 < length (trim s)
        \<and> (given net \<longrightarrow> Networks_get_arg (registry_of e) net \<noteq> None)"
    and d: "decodeCashAddress (registry_of e) (trim s) = Inl err"
  have "transformString (registry_of e) s net ty = Inl err"
    using a d by (intro transformString_error) simp_all
  then show "fromString e s net ty = Inl err"
    by (simp add: fromString_def)
next
  fix err
  assume a: "34 \<le> length s \<and> 35 < length (trim s)
        \<and> (given net \<longrightarrow> Networks_get_arg (registry_of e) net \<noteq> None)"
    and d: "decodeCashAddress (registry_of e) (trim s) = Inl err"
    and t: "truthy ty \<longrightarrow> ty = Some PayToPublicKeyHash \<or> ty = Some PayToScriptHash"
  have ne: "\<not> falsy_data (Str s)"
    using a by (auto simp add: falsy_data_def)
  have "transformString (registry_of e) s net ty = Inl err"
    using a d by (intro transformString_error) simp_all
  then have "classifyArguments e (Str s) net ty = Inl err"
    by (simp add: classify_Str)
  then show "Address e (Str s) net ty = Inl err"
    unfolding Address_Str using a t ne by (intro construct_checked) simp_all
next
  fix a
  assume "Address e (Str s) net ty = Inr a \<or> fromString e s net ty = Inr a"
  then have r: "34 \<le> length s \<and> 35 < length (trim s)
       \<and> decodeCashAddress (registry_of e) (trim s)
          = Inr \<lparr>info_hashBuffer = hashBuffer a, info_network = Some (network a),
                 info_type = Some (type a)\<rparr>"
    using construct_Str_decoded [of e s net ty a] fromString_decoded [of e s net ty a]
    unfolding Address_Str by blast
  show "34 \<le> length s" using r by simp
  show "35 < length (trim s)" using r by simp
  show "decodeCashAddress (registry_of e) (trim s)
          = Inr \<lparr>info_hashBuffer = hashBuffer a, info_network = Some (network a),
                 info_type = Some (type a)\<rparr>" using r by simp
qed

theorem string_input_lengths_counterexample:
  "length ''1BpEi6DfDAUFd7GtittLSdBeYJvcoaVggu  '' = 36
   \<and> Address bch_env (Str ''1BpEi6DfDAUFd7GtittLSdBeYJvcoaVggu  '') None None
        = Inl (Error ''Invalid Address string provided'')
   \<and> fromString bch_env ''1BpEi6DfDAUFd7GtittLSdBeYJvcoaVggu  '' None None
        = Inl (Error ''Invalid Address string provided'')
   \<and> decodeCashAddress bch_registry ''1BpEi6DfDAUFd7GtittLSdBeYJvcoaVggu  ''
        = Inl (InvalidArgument ''Mixed case'')
   \<and> length ''1BpEi6DfDAUFd7GtittLSdBeYJvcoaVggu'' = 34
   \<and> Address bch_env (Str ''1BpEi6DfDAUFd7GtittLSdBeYJvcoaVggu'') (Some (NetName ''nonet'')) None
        = Inl (TypeError ''Second argument must be a supported network.'')
   \<and> fromString bch_env ''1BpEi6DfDAUFd7GtittLSdBeYJvcoaVggu'' (Some (NetName ''nonet'')) None
        = Inl (TypeError ''Unknown network'')"
  by code_simp


theorem string_input_lengths_witness:
  "length ''too short'' < 34
   \<and> (\<exists>err. Address bch_env (Str ''too short'') None None = Inl err)
   \<and> (\<exists>err. fromString bch_env ''too short'' None None = Inl err)
   \<and> 34 \<le> length ''1BpEi6DfDAUFd7GtittLSdBeYJvcoaVggu''
   \<and> length (trim ''1BpEi6DfDAUFd7GtittLSdBeYJvcoaVggu'') \<le> 35
   \<and> Address bch_env (Str ''1BpEi6DfDAUFd7GtittLSdBeYJvcoaVggu'') None None
        = Inl (Error ''Invalid Address string provided'')
   \<and> fromString bch_env ''1BpEi6DfDAUFd7GtittLSdBeYJvcoaVggu'' None None
        = Inl (Error ''Invalid Address string provided'')
   \<and> 35 < length (trim ''Bitcoincash:qqqqqqqqqqqqqqqqqqqqqqqqqqqqqqqqqqfnhks603'')
   \<and> decodeCashAddress bch_registry (trim ''Bitcoincash:qqqqqqqqqqqqqqqqqqqqqqqqqqqqqqqqqqfnhks603'')
        = Inl (InvalidArgument ''Mixed case'')
   \<and> Address bch_env (Str ''Bitcoincash:qqqqqqqqqqqqqqqqqqqqqqqqqqqqqqqqqqfnhks603'') None None
        = Inl (InvalidArgument ''Mixed case'')
   \<and> fromString bch_env ''Bitcoincash:qqqqqqqqqqqqqqqqqqqqqqqqqqqqqqqqqqfnhks603'' None None
        = Inl (InvalidArgument ''Mixed case'')
   \<and> Address bch_env (Str ''bitcoincash:qqqqqqqqqqqqqqqqqqqqqqqqqqqqqqqqqqfnhks603'') None None
        = Inr \<lparr>hashBuffer = replicate 20 0, network = livenet, type = PayToPublicKeyHash\<rparr>
   \<and> decodeCashAddress bch_registry (trim ''bitcoincash:qqqqqqqqqqqqqqqqqqqqqqqqqqqqqqqqqqfnhks603'')
        = Inr \<lparr>info_hashBuffer = replicate 20 0, info_network = Some livenet,
               info_type = Some PayToPublicKeyHash\<rparr>"
proof -
  let ?l = "''1BpEi6DfDAUFd7GtittLSdBeYJvcoaVggu''"
  let ?m = "''Bitcoincash:qqqqqqqqqqqqqqqqqqqqqqqqqqqqqqqqqqfnhks603''"
  let ?g = "''bitcoincash:qqqqqqqqqqqqqqqqqqqqqqqqqqqqqqqqqqfnhks603''"
  have r: "registry_of bch_env = bch_registry"
    by (simp add: bch_env_def)
  have a: "length ''too short'' < 34"
    by simp
  have b: "34 \<le> length ?l \<and> length (trim ?l) \<le> 35"
    by code_simp
  have n: "given None \<longrightarrow> Networks_get_arg (registry_of bch_env) None \<noteq> None"
    by (simp add: given_def)
  have t: "truthy None \<longrightarrow> None = Some PayToPublicKeyHash \<or> None = Some PayToScriptHash"
    by (simp add: truthy_def)
  have c: "34 \<le> length ?m \<and> 35 < length (trim ?m)
        \<and> (given None \<longrightarrow> Networks_get_arg (registry_of bch_env) None \<noteq> None)"
    using n by code_simp
  have d: "decodeCashAddress (registry_of bch_env) (trim ?m) = Inl (InvalidArgument ''Mixed case'')"
    unfolding r by code_simp
  have g: "Address bch_env (Str ?g) None None
        = Inr \<lparr>hashBuffer = replicate 20 0, network = livenet, type = PayToPublicKeyHash\<rparr>"
    unfolding Address_Str construct_def classify_Str r golden_transformString
    by (simp add: falsy_data_def given_def truthy_def PayToPublicKeyHash_def)
  note w = string_input_lengths [of _ bch_env None None]
  note w1 = w [of "''too short''", THEN conjunct1, THEN mp, OF a]
  note w2 = w [of ?l, THEN conjunct2, THEN conjunct1, THEN mp, OF b,
      THEN conjunct2, THEN conjunct2, THEN mp, OF n]
  note w2a = w2 [THEN conjunct2, THEN mp, OF t]
  note w3 = w [of ?m, THEN conjunct2, THEN conjunct2, THEN conjunct1, THEN mp, OF c,
      THEN spec, THEN mp, OF d]
  note w3a = w3 [THEN conjunct2, THEN mp, OF t]
  note w4 = w [of ?g, THEN conjunct2, THEN conjunct2, THEN conjunct2, THEN spec, THEN mp,
      OF disjI1, OF g]
  show ?thesis
    using w1 w2 w2a w3 w3a w4 a b c d g unfolding r by simp
qed

text \<open>
  C5 (as amended). For the input shapes that carry a network and a type of their own and
  are cross-checked, the 21-byte buffer and the text string: when the input alone is
  classified as \<open>i\<close> and the caller supplies valid explicit arguments, an explicit network
  that differs from the derived one (for a string: whose name differs) makes the
  construction fail with \<open>Address has mismatched network type.\<close>, and, the network agreeing
  or being absent, an explicit type that differs from the derived one makes it fail with
  \<open>Address has mismatched type.\<close> The structured record is not cross-checked: the
  counterexample constructs an address from a record whose network and type both differ
  from the explicit arguments, and the record's values are used.
\<close>

theorem explicit_arguments_cross_checked:
  assumes "truthy ty \<longrightarrow> ty = Some PayToPublicKeyHash \<or> ty = Some PayToScriptHash"
  shows
   "(length b = 21 \<and> classifyArguments e (Buf b) None None = Inr i \<longrightarrow>
       (given net \<and> Networks_get_arg (registry_of e) net = Some n' \<and> info_network i \<noteq> Some n' \<longrightarrow>
          Address e (Buf b) net ty = Inl (TypeError ''Address has mismatched network type.''))
     \<and> ((\<not> given net \<or> Networks_get_arg (registry_of e) net = info_network i)
          \<and> truthy ty \<and> ty \<noteq> info_type i \<longrightarrow>
          Address e (Buf b) net ty = Inl (TypeError ''Address has mismatched type.'')))
    \<and> (classifyArguments e (Str s) None None = Inr j \<longrightarrow>
       (given net \<and> Networks_get_arg (registry_of e) net = Some n'
          \<and> name n' \<noteq> name (the (info_network j)) \<longrightarrow>
          Address e (Str s) net ty = Inl (TypeError ''Address has mismatched network type.''))
     \<and> ((\<not> given net \<and> Networks_get_arg (registry_of e) net = None
           \<or> (\<exists>m. Networks_get_arg (registry_of e) net = Some m
                  \<and> name m = name (the (info_network j))))
          \<and> truthy ty \<and> ty \<noteq> info_type j \<longrightarrow>
          Address e (Str s) net ty = Inl (TypeError ''Address has mismatched type.'')))"
proof (intro conjI impI)
  assume a: "length b = 21 \<and> classifyArguments e (Buf b) None None = Inr i"
    and m: "given net \<and> Networks_get_arg (registry_of e) net = Some n' \<and> info_network i \<noteq> Some n'"
  have l: "length b = 21" using a by simp
  have d: "transformBuffer (registry_of e) b None None = Inr i"
    using a classify_Buf21 [OF l] by simp
  have "classifyArguments e (Buf b) net ty = Inl (TypeError ''Address has mismatched network type.'')"
    using buffer_network_mismatch [OF l d, of net n' ty] m by (simp add: classify_Buf21 [OF l])
  then show "Address e (Buf b) net ty = Inl (TypeError ''Address has mismatched network type.'')"
    unfolding Address_Buf using m assms
    by (intro construct_checked) (simp_all add: falsy_data_def)
next
  assume a: "length b = 21 \<and> classifyArguments e (Buf b) None None = Inr i"
    and m: "(\<not> given net \<or> Networks_get_arg (registry_of e) net = info_network i)
          \<and> truthy ty \<and> ty \<noteq> info_type i"
  have l: "length b = 21" using a by simp
  have d: "transformBuffer (registry_of e) b None None = Inr i"
    using a classify_Buf21 [OF l] by simp
  have some: "info_network i \<noteq> None"
    using buffer_derived [OF l d] by auto
  have "classifyArguments e (Buf b) net ty = Inl (TypeError ''Address has mismatched type.'')"
    using buffer_type_mismatch [OF l d, of net ty] m by (simp add: classify_Buf21 [OF l])
  then show "Address e (Buf b) net ty = Inl (TypeError ''Address has mismatched type.'')"
    unfolding Address_Buf using m assms some
    by (intro construct_checked) (auto simp add: falsy_data_def)
next
  assume a: "classifyArguments e (Str s) None None = Inr j"
    and m: "given net \<and> Networks_get_arg (registry_of e) net = Some n'
          \<and> name n' \<noteq> name (the (info_network j))"
  have d: "transformString (registry_of e) s None None = Inr j"
    using a by (simp add: classify_Str)
  have ne: "s \<noteq> []"
    using string_derived [OF d] by auto
  have "classifyArguments e (Str s) net ty = Inl (TypeError ''Address has mismatched network type.'')"
    using string_network_mismatch [OF d, of net n' ty] m by (simp add: classify_Str)
  then show "Address e (Str s) net ty = Inl (TypeError ''Address has mismatched network type.'')"
    unfolding Address_Str using m assms ne
    by (intro construct_checked) (simp_all add: falsy_data_def)
next
  assume a: "classifyArguments e (Str s) None None = Inr j"
    and m: "(\<not> given net \<and> Networks_get_arg (registry_of e) net = None
           \<or> (\<exists>m. Networks_get_arg (registry_of e) net = Some m
                  \<and> name m = name (the (info_network j))))
          \<and> truthy ty \<and> ty \<noteq> info_type j"
  have d: "transformString (registry_of e) s None None = Inr j"
    using a by (simp add: classify_Str)
  have ne: "s \<noteq> []"
    using string_derived [OF d] by auto
  have "classifyArguments e (Str s) net ty = Inl (TypeError ''Address has mismatched type.'')"
    using string_type_mismatch [OF d, of net ty] m by (simp add: classify_Str)
  then show "Address e (Str s) net ty = Inl (TypeError ''Address has mismatched type.'')"
    unfolding Address_Str using m assms ne
    by (intro construct_checked) (auto simp add: falsy_data_def)
qed

theorem explicit_arguments_counterexample:
  "classifyArguments bch_env
      (Obj \<lparr>obj_hash = None, obj_hashBuffer = Some (replicate 20 0),
            obj_network = Some (NetName ''bchtest''), obj_type = Some PayToScriptHash\<rparr>) None None
     = Inr \<lparr>info_hashBuffer = replicate 20 0, info_network = Some testnet,
            info_type = Some PayToScriptHash\<rparr>
   \<and> Networks_get_arg bch_registry (Some (NetName ''bch'')) = Some livenet
   \<and> livenet \<noteq> testnet \<and> PayToPublicKeyHash \<noteq> PayToScriptHash
   \<and> Address bch_env
      (Obj \<lparr>obj_hash = None, obj_hashBuffer = Some (replicate 20 0),
            obj_network = Some (NetName ''bchtest''), obj_type = Some PayToScriptHash\<rparr>)
      (Some (NetName ''bch'')) (Some PayToPublicKeyHash)
     = Inr \<lparr>hashBuffer = replicate 20 0, network = testnet, type = PayToScriptHash\<rparr>"
  by code_simp

theorem explicit_arguments_cross_checked_witness:
  "classifyArguments bch_env (Buf (0x6f # replicate 20 0)) None None
     = Inr \<lparr>info_hashBuffer = replicate 20 0, info_network = Some testnet,
            info_type = Some PayToPublicKeyHash\<rparr>
   \<and> given (Some (NetName ''bch''))
   \<and> Networks_get_arg (registry_of bch_env) (Some (NetName ''bch'')) = Some livenet
   \<and> Address bch_env (Buf (0x6f # replicate 20 0)) (Some (NetName ''bch'')) (Some PayToScriptHash)
        = Inl (TypeError ''Address has mismatched network type.'')
   \<and> classifyArguments bch_env (Str ''bitcoincash:qqqqqqqqqqqqqqqqqqqqqqqqqqqqqqqqqqfnhks603'') None None
     = Inr \<lparr>info_hashBuffer = replicate 20 0, info_network = Some livenet,
            info_type = Some PayToPublicKeyHash\<rparr>
   \<and> Address bch_env (Str ''bitcoincash:qqqqqqqqqqqqqqqqqqqqqqqqqqqqqqqqqqfnhks603'') None
        (Some PayToScriptHash)
        = Inl (TypeError ''Address has mismatched type.'')"
proof -
  let ?b = "0x6f # replicate 20 (0 :: byte)"
  let ?g = "''bitcoincash:qqqqqqqqqqqqqqqqqqqqqqqqqqqqqqqqqqfnhks603''"
  have ty: "truthy (Some PayToScriptHash) \<longrightarrow>
      Some PayToScriptHash = Some PayToPublicKeyHash \<or> Some PayToScriptHash = Some PayToScriptHash"
    by simp
  have l: "length ?b = 21"
    by simp
  have cb: "classifyArguments bch_env (Buf ?b) None None
     = Inr \<lparr>info_hashBuffer = replicate 20 0, info_network = Some testnet,
            info_type = Some PayToPublicKeyHash\<rparr>"
    by code_simp
  have g: "given (Some (NetName ''bch''))"
    "Networks_get_arg (registry_of bch_env) (Some (NetName ''bch'')) = Some livenet"
    "Some testnet \<noteq> Some livenet"
    by code_simp+
  have cs: "classifyArguments bch_env (Str ?g) None None
     = Inr \<lparr>info_hashBuffer = replicate 20 0, info_network = Some livenet,
            info_type = Some PayToPublicKeyHash\<rparr>"
    using golden_transformString by (simp add: classify_Str bch_env_def)
  have n: "\<not> given None" "Networks_get_arg (registry_of bch_env) None = None"
    by (simp_all add: given_def Networks_get_arg_def)
  have t: "truthy (Some PayToScriptHash)" "Some PayToScriptHash \<noteq> Some PayToPublicKeyHash"
    by code_simp+
  note w = explicit_arguments_cross_checked [OF ty]
  have "Address bch_env (Buf ?b) (Some (NetName ''bch'')) (Some PayToScriptHash)
        = Inl (TypeError ''Address has mismatched network type.'')"
    using w [of ?b bch_env _ "Some (NetName ''bch'')" livenet, THEN conjunct1] l cb g by simp
  moreover have "Address bch_env (Str ?g) None (Some PayToScriptHash)
        = Inl (TypeError ''Address has mismatched type.'')"
    using w [of _ bch_env _ None _ ?g, THEN conjunct2] cs n t by simp
  ultimately show ?thesis
    using cb g cs by simp
qed

text \<open>
  C4. Checksum sensitivity: let \<open>payloadText\<close> be the Base-32 payload that \<open>toCashAddress\<close>
  produces for an address on a registered network, so that the encoded text is the payload
  or the prefix, a colon and the payload. Replacing exactly one character of the payload
  by any different character of the alphabet makes \<open>decodeCashAddress\<close> fail with the
  invalid-checksum error, for every position and every replacement. For the text without
  prefix this needs the tried prefixes to be separated from the prefix of the network.
\<close>

theorem checksum_sensitivity:
  assumes len: "length h = 20"
    and ty: "t = PayToPublicKeyHash \<or> t = PayToScriptHash"
    and rg: "registered reg n"
    and enc: "toCashAddress \<lparr>hashBuffer = h, network = n, type = t\<rparr> True = Inr payloadText"
    and k: "k < length payloadText"
    and c: "c \<in> set CHARSET" "c \<noteq> payloadText ! k"
    and sep: "strip \<longrightarrow> separated reg n (length payloadText)"
  shows "toCashAddress \<lparr>hashBuffer = h, network = n, type = t\<rparr> strip
           = Inr ((if strip then [] else protocol n @ '':'') @ payloadText)
       \<and> decodeCashAddress reg ((if strip then [] else protocol n @ '':'') @ payloadText[k := c])
           = Inl (InvalidArgument (''Invalid checksum:'' @
                (if strip then [] else protocol n @ '':'') @ payloadText[k := c]))"
proof -
  let ?a = "\<lparr>hashBuffer = h, network = n, type = t\<rparr>"
  let ?p = "protocol n"
  have sz: "length (hashBuffer ?a) \<in> {20, 24, 28, 32, 40, 48, 56, 64}"
    using len by simp
  have t: "type ?a = ''pubkeyhash'' \<or> type ?a = ''scripthash''"
    using ty by (simp add: PayToPublicKeyHash_def PayToScriptHash_def)
  have p: "?p \<noteq> []" "CHR '':'' \<notin> set ?p" "toLowerCase ?p = ?p"
    using rg by (simp_all add: registered_def protocol_ok_def)
  obtain pd vb where e: "\<forall>v\<in>set pd. v < 32"
    "\<And>strip. toCashAddress ?a strip =
            Inr ((if strip then [] else ?p @ '':'') @ map ((!) CHARSET)
                (pd @ checksumToArray (polymod ((protocolToArray ?p @ [0]) @ pd @ eight0))))"
    using encode_shape [OF sz t] by auto
  define payload where
    "payload = pd @ checksumToArray (polymod ((protocolToArray ?p @ [0]) @ pd @ eight0))"
  have all: "\<forall>v\<in>set payload. v < 32"
    using e(1) checksumToArray_small unfolding payload_def by auto
  have valid: "validChecksum ?p payload"
    unfolding payload_def by (rule valid_encoded [OF e(1)])
  have enc': "toCashAddress ?a strip =
            Inr ((if strip then [] else ?p @ '':'') @ map ((!) CHARSET) payload)" for strip
    unfolding payload_def by (rule e(2))
  have tx: "payloadText = map ((!) CHARSET) payload"
    using enc enc' [of True] by simp
  have kk: "k < length payload"
    using k tx by simp
  obtain w where w: "w < 32" "c = CHARSET ! w"
    using charset_index [OF c(1)] by blast
  have wne: "w \<noteq> payload ! k"
    using c(2) w(2) tx kk by auto
  define payload' where "payload' = payload[k := w]"
  have tx': "payloadText[k := c] = map ((!) CHARSET) payload'"
    by (simp add: tx w(2) map_update payload'_def)
  have all': "\<forall>v\<in>set payload'. v < 32"
    using all w(1) set_update_subset_insert [of payload k w] unfolding payload'_def by auto
  have first: "toCashAddress ?a strip = Inr ((if strip then [] else ?p @ '':'') @ payloadText)"
    using enc' [of strip] tx by simp
  have second: "decodeCashAddress reg ((if strip then [] else ?p @ '':'') @ payloadText[k := c])
           = Inl (InvalidArgument (''Invalid checksum:'' @
                (if strip then [] else ?p @ '':'') @ payloadText[k := c]))"
  proof (cases strip)
    case False
    have "\<not> validChecksum ?p payload'"
      using substituted_invalid [OF all kk w(1) wne valid, of ?p] same_prefix_far
      unfolding payload'_def by simp
    then have "decodeCashAddress reg (?p @ CHR '':'' # map ((!) CHARSET) payload')
        = Inl (InvalidArgument (''Invalid checksum:'' @ ?p @ CHR '':'' # map ((!) CHARSET) payload'))"
      by (simp only: decode_prefixed [OF p all'] if_False)
    then show ?thesis
      using False by (simp add: tx')
  next
    case True
    then have s: "separated reg n (length payloadText)"
      using sep by simp
    have "length (tried reg) = 3" by (simp add: tried_def)
    moreover have "list_all (\<lambda>m. m \<noteq> None) (tried reg)"
      using s by (simp add: separated_def list_all_iff)
    ultimately obtain l t' r where tr: "tried reg = [Some l, Some t', Some r]"
      using three_elems by blast
    have inv: "\<not> validChecksum (protocol m) payload'" if "m = l \<or> m = t' \<or> m = r" for m
      using substituted_invalid [OF all kk w(1) wne valid, of "protocol m"]
        separated_far [OF s tr k that] unfolding payload'_def by simp
    have "check_protocol reg (map ((!) CHARSET) payload') None payload'
        = Inl (InvalidArgument (''Invalid checksum:'' @ map ((!) CHARSET) payload'))"
      using check_protocol_none [OF tr] inv by simp
    then have "decodeCashAddress reg (map ((!) CHARSET) payload')
        = Inl (InvalidArgument (''Invalid checksum:'' @ map ((!) CHARSET) payload'))"
      by (simp only: decode_bare [OF all'] and_then_Inl)
    then show ?thesis
      using True by (simp add: tx')
  qed
  show ?thesis
    using first second by blast
qed

theorem checksum_sensitivity_witness:
  "length (replicate 20 (0 :: byte)) = 20 \<and> registered bch_registry livenet
   \<and> toCashAddress \<lparr>hashBuffer = replicate 20 0, network = livenet, type = PayToPublicKeyHash\<rparr> True
        = Inr ''qqqqqqqqqqqqqqqqqqqqqqqqqqqqqqqqqqfnhks603''
   \<and> CHR ''p'' \<in> set CHARSET
   \<and> CHR ''p'' \<noteq> ''qqqqqqqqqqqqqqqqqqqqqqqqqqqqqqqqqqfnhks603'' ! 3
   \<and> separated bch_registry livenet (length ''qqqqqqqqqqqqqqqqqqqqqqqqqqqqqqqqqqfnhks603'')
   \<and> decodeCashAddress bch_registry ''qqqpqqqqqqqqqqqqqqqqqqqqqqqqqqqqqqfnhks603''
        = Inl (InvalidArgument ''Invalid checksum:qqqpqqqqqqqqqqqqqqqqqqqqqqqqqqqqqqfnhks603'')
   \<and> decodeCashAddress bch_registry ''bitcoincash:qqqpqqqqqqqqqqqqqqqqqqqqqqqqqqqqqqfnhks603''
        = Inl (InvalidArgument
            ''Invalid checksum:bitcoincash:qqqpqqqqqqqqqqqqqqqqqqqqqqqqqqqqqqfnhks603'')"
proof -
  let ?g = "''qqqqqqqqqqqqqqqqqqqqqqqqqqqqqqqqqqfnhks603''"
  have r: "registered bch_registry livenet"
    using bch_registered by simp
  have l: "length (replicate 20 (0 :: byte)) = 20"
    by simp
  have k: "3 < length ?g"
    by simp
  have c: "CHR ''p'' \<in> set CHARSET" "CHR ''p'' \<noteq> ?g ! 3"
    by (simp_all add: CHARSET_def)
  have n: "length ?g = 42"
    by simp
  have s: "separated bch_registry livenet (length ?g)"
    using bch_separated by (simp only: n)
  have u: "?g[3 := CHR ''p''] = ''qqqpqqqqqqqqqqqqqqqqqqqqqqqqqqqqqqfnhks603''"
    by simp
  note w = checksum_sensitivity [OF l _ r golden_encode_bare k c]
  have "decodeCashAddress bch_registry ''qqqpqqqqqqqqqqqqqqqqqqqqqqqqqqqqqqfnhks603''
        = Inl (InvalidArgument ''Invalid checksum:qqqpqqqqqqqqqqqqqqqqqqqqqqqqqqqqqqfnhks603'')"
    using w [of True] s by (simp add: u)
  moreover have "decodeCashAddress bch_registry ''bitcoincash:qqqpqqqqqqqqqqqqqqqqqqqqqqqqqqqqqqfnhks603''
        = Inl (InvalidArgument
            ''Invalid checksum:bitcoincash:qqqpqqqqqqqqqqqqqqqqqqqqqqqqqqqqqqfnhks603'')"
    using w [of False] by (simp add: u bch_protocols)
  ultimately show ?thesis
    using l r golden_encode_bare c s by simp
qed

end
